theory Spec2Isabelle
  imports Main "HOL-Library.Sublist" "HOL-Library.Multiset"
begin

section \<open>JavaScript values used by clean-snapshots.tsx\<close>

text \<open>
  Strings are lists of 8-bit characters. A \<open>number\<close> that reaches the concurrency runner
  is the result of \<open>parseInt\<close>, a double without a fractional part: \<open>NaN\<close>, an integer
  (\<open>Num\<close>, with \<open>Num 0\<close> for \<open>+0\<close>), \<open>-0\<close>, \<open>Infinity\<close> or \<open>-Infinity\<close>. A
  comparison with \<open>NaN\<close> on either side is false, and \<open>-0\<close> compares as \<open>0\<close>.
\<close>

datatype jsnumber = NaN | Num int | NegZero | PosInfinity | NegInfinity

text \<open>\<open>limit <= items.length\<close>\<close>

definition num_le_len :: "jsnumber \<Rightarrow> nat \<Rightarrow> bool" where
  "num_le_len l n =
     (case l of NaN \<Rightarrow> False | Num k \<Rightarrow> k \<le> int n | NegZero \<Rightarrow> True
      | PosInfinity \<Rightarrow> False | NegInfinity \<Rightarrow> True)"

text \<open>\<open>executing.length >= limit\<close>\<close>

definition len_ge_num :: "nat \<Rightarrow> jsnumber \<Rightarrow> bool" where
  "len_ge_num n l =
     (case l of NaN \<Rightarrow> False | Num k \<Rightarrow> int n \<ge> k | NegZero \<Rightarrow> True
      | PosInfinity \<Rightarrow> False | NegInfinity \<Rightarrow> True)"

text \<open>An optional string property is truthy when it is present and not empty.\<close>

definition truthy :: "string option \<Rightarrow> bool" where
  "truthy v = (case v of None \<Rightarrow> False | Some s \<Rightarrow> s \<noteq> [])"

text \<open>\<open>a || b\<close> for an optional string \<open>a\<close> and a string \<open>b\<close>\<close>

definition or_else :: "string option \<Rightarrow> string \<Rightarrow> string" where
  "or_else v d = (case v of None \<Rightarrow> d | Some s \<Rightarrow> if s = [] then d else s)"

text \<open>\<open>s.includes(sub)\<close>\<close>

fun str_includes :: "string \<Rightarrow> string \<Rightarrow> bool" where
  "str_includes [] sub = (sub = [])"
| "str_includes (c # cs) sub = (prefix sub (c # cs) \<or> str_includes cs sub)"

text \<open>\<open>s.substring(0, n)\<close>\<close>

definition substring0 :: "nat \<Rightarrow> string \<Rightarrow> string" where
  "substring0 n s = take n s"

text \<open>
  White space and line terminators of ECMAScript that fit in 8 bits: TAB, LF, VT, FF, CR,
  SP and NBSP.
\<close>

definition isWhiteSpace :: "char \<Rightarrow> bool" where
  "isWhiteSpace c = (c \<in> {CHR 0x09, CHR 0x0A, CHR 0x0B, CHR 0x0C, CHR 0x0D, CHR 0x20, CHR 0xA0})"

text \<open>\<open>s.trim()\<close>\<close>

definition trim :: "string \<Rightarrow> string" where
  "trim s = rev (dropWhile isWhiteSpace (rev (dropWhile isWhiteSpace s)))"

definition isDigit :: "char \<Rightarrow> bool" where
  "isDigit c = (48 \<le> (of_char c :: nat) \<and> (of_char c :: nat) \<le> 57)"

definition digitVal :: "char \<Rightarrow> int" where
  "digitVal c = int (of_char c) - 48"

text \<open>The number of binary digits of \<open>n\<close>.\<close>

fun bitLength :: "nat \<Rightarrow> nat" where
  "bitLength n = (if n = 0 then 0 else Suc (bitLength (n div 2)))"

declare bitLength.simps [simp del]

text \<open>
  The double nearest to the integer \<open>m\<close>: \<open>m\<close> itself when it has at most 53 binary
  digits; otherwise \<open>m\<close> is rounded to its 53 leading binary digits, to the nearest such
  value and to the even one of two equally near. \<open>None\<close> when the rounded value
  reaches \<open>2 ^ 1024\<close>, which is beyond the largest double.
\<close>

definition roundToDouble :: "nat \<Rightarrow> nat option" where
  "roundToDouble m =
     (let e = bitLength m
      in if e \<le> 53 then Some m
         else (let sh = e - 53;
                   q = m div 2 ^ sh;
                   r = m mod 2 ^ sh;
                   half = 2 ^ (sh - 1);
                   q1 = (if half < r \<or> (r = half \<and> odd q) then q + 1 else q);
                   d = q1 * 2 ^ sh
               in if 2 ^ 1024 \<le> d then None else Some d))"

text \<open>
  The number that \<open>parseInt\<close> returns for a sign and the integer its digits denote: zero
  keeps the sign, and an integer beyond the doubles is an infinity.
\<close>

definition numberValue :: "bool \<Rightarrow> nat \<Rightarrow> jsnumber" where
  "numberValue neg m =
     (if m = 0 then (if neg then NegZero else Num 0)
      else (case roundToDouble m of
              None \<Rightarrow> (if neg then NegInfinity else PosInfinity)
            | Some d \<Rightarrow> Num (if neg then - int d else int d)))"

text \<open>
  \<open>parseInt(s, 10)\<close>: leading white space is skipped, one sign is read, then the longest
  run of decimal digits; with no digit there the result is \<open>NaN\<close>, and otherwise the
  number value of the integer that the digits denote.
\<close>

definition parseInt10 :: "string \<Rightarrow> jsnumber" where
  "parseInt10 s =
     (let t = dropWhile isWhiteSpace s;
          neg = (t \<noteq> [] \<and> hd t = CHR ''-'');
          u = (if t \<noteq> [] \<and> (hd t = CHR ''-'' \<or> hd t = CHR ''+'') then tl t else t);
          z = takeWhile isDigit u
      in if z = [] then NaN
         else numberValue neg (nat (foldl (\<lambda>acc c. 10 * acc + digitVal c) 0 z)))"

text \<open>The decimal text of a count, as a template literal prints it.\<close>

definition digitChar :: "nat \<Rightarrow> char" where
  "digitChar d = ''0123456789'' ! d"

fun showNat :: "nat \<Rightarrow> string" where
  "showNat n = (if n < 10 then [digitChar n] else showNat (n div 10) @ [digitChar (n mod 10)])"

declare showNat.simps [simp del]

section \<open>The concurrency preference\<close>

text \<open>
  \<open>parseInt(preferences.concurrency || "3", 10)\<close>; the preference may be missing, which
  is \<open>None\<close>.
\<close>

definition concurrencyLimit :: "string option \<Rightarrow> jsnumber" where
  "concurrencyLimit pref = parseInt10 (or_else pref ''3'')"

section \<open>Shell commands and the subprocess interface\<close>

text \<open>\<open>pwd.replace(/'/g, "'\\''")\<close>: every single quote becomes the four characters \<open>'\''\<close>.\<close>

definition escapeSingleQuote :: "string \<Rightarrow> string" where
  "escapeSingleQuote pwd =
     concat (map (\<lambda>c. if c = CHR 0x27 then [CHR 0x27, CHR 0x5C, CHR 0x27, CHR 0x27] else [c]) pwd)"

text \<open>The command of \<open>verifyPassword\<close>, from the escaped password.\<close>

definition verifyCommand :: "string \<Rightarrow> string" where
  "verifyCommand escapedPassword =
     ''sudo -k && printf '' @ [CHR 0x27] @ ''%s'' @ [CHR 0x5C] @ ''n'' @ [CHR 0x27] @ '' '' @ [CHR 0x27]
       @ escapedPassword @ [CHR 0x27] @ '' | sudo -S -v 2>&1''"

text \<open>The command of one deletion, from the escaped password and the snapshot id.\<close>

definition deleteCommand :: "string \<Rightarrow> string \<Rightarrow> string" where
  "deleteCommand escapedPassword snapshotDate =
     ''printf '' @ [CHR 0x27] @ ''%s'' @ [CHR 0x5C] @ ''n'' @ [CHR 0x27] @ '' '' @ [CHR 0x27]
       @ escapedPassword @ [CHR 0x27]
       @ '' | sudo -S /usr/bin/tmutil deletelocalsnapshots '' @ snapshotDate"

text \<open>
  How an \<open>execAsync\<close> call ends: the process succeeds with its standard output, or the
  promise rejects with an \<open>Error\<close> carrying a message and optional \<open>stderr\<close> and
  \<open>stdout\<close>, or something that is not an \<open>Error\<close> is thrown.
\<close>

datatype thrown =
    ExecError string "string option" "string option"
  | ThrownOther

datatype exec_outcome =
    ExecOk string
  | ExecFailed thrown

section \<open>Credential verification\<close>

record verify_result =
  valid :: bool
  verror :: "string option"

text \<open>
  \<open>verifyPassword\<close>, given what the environment answers to a command. The result comes
  with the list of commands that were executed.
\<close>

definition verifyPassword :: "(string \<Rightarrow> exec_outcome) \<Rightarrow> string \<Rightarrow> verify_result \<times> string list" where
  "verifyPassword env password =
     (let escapedPassword = escapeSingleQuote password;
          command = verifyCommand escapedPassword
      in (case env command of
            ExecOk out \<Rightarrow> \<lparr>valid = True, verror = None\<rparr>
          | ExecFailed (ExecError msg err out) \<Rightarrow>
              (let output = or_else err (or_else out msg)
               in if str_includes output ''Sorry'' \<or> str_includes output ''incorrect password''
                  then \<lparr>valid = False, verror = Some ''Incorrect password''\<rparr>
                  else \<lparr>valid = False, verror = Some ''Failed to verify password''\<rparr>)
          | ExecFailed ThrownOther \<Rightarrow> \<lparr>valid = False, verror = Some ''Failed to verify password''\<rparr>,
          [command]))"

text \<open>
  The state of \<open>PasswordForm\<close> and what a submission does outside it: the commands it
  executed, the password handed to \<open>onSubmit\<close>, and whether the form was popped.
\<close>

record form_state =
  password :: string
  isVerifying :: bool
  ferror :: "string option"

record submit_result =
  form :: form_state
  executed :: "string list"
  submitted :: "string option"
  popped :: bool

definition handleSubmit :: "(string \<Rightarrow> exec_outcome) \<Rightarrow> form_state \<Rightarrow> submit_result" where
  "handleSubmit env st =
     (if trim (password st) = []
      then \<lparr>form = st\<lparr>ferror := Some ''Please enter your password''\<rparr>,
            executed = [], submitted = None, popped = False\<rparr>
      else (let st1 = st\<lparr>isVerifying := True, ferror := None\<rparr>;
                (result, cmds) = verifyPassword env (password st)
            in if valid result
               then \<lparr>form = st1, executed = cmds, submitted = Some (password st), popped = True\<rparr>
               else \<lparr>form = st1\<lparr>ferror := Some (or_else (verror result) ''Incorrect password. Please try again.''),
                                isVerifying := False\<rparr>,
                     executed = cmds, submitted = None, popped = False\<rparr>))"

section \<open>The bounded-concurrency runner\<close>

text \<open>
  \<open>runWithConcurrencyLimit(items, limit, fn)\<close> runs on JavaScript's event loop: the
  synchronous code of the loop, the microtasks it queues, and the external events (a
  subprocess ending) that resume a suspended task. The model is a machine with one state
  per point of that execution.

  The task function \<open>fn\<close> is an async function that waits for external events:
  \<open>call\<close> is its synchronous part up to the first \<open>await\<close>, and \<open>resume\<close> the part
  that runs when an event arrives for the suspended task. Each returns \<open>None\<close> when the
  task is then suspended (again), or the settlement of its promise when it has returned.
  Both act on the state that the tasks share.
\<close>

datatype ('x, 'r) settled = Fulfilled 'r | Rejected 'x

record ('t, 's, 'e, 'x, 'r) task =
  call :: "'t \<Rightarrow> nat \<Rightarrow> 's \<Rightarrow> 's \<times> ('x, 'r) settled option"
  resume :: "'t \<Rightarrow> nat \<Rightarrow> 'e \<Rightarrow> 's \<Rightarrow> 's \<times> ('x, 'r) settled option"

text \<open>
  Where the runner's own code stands: in the \<open>for\<close> loop, suspended at
  \<open>await Promise.race(executing)\<close>, returned with \<open>Promise.all(results)\<close> pending,
  resolved, or rejected.
\<close>

datatype 'x mainst = MRun | MAwait | MAll | MDone | MFailed 'x

text \<open>How the awaited race settled: fulfilled, or rejected with a reason.\<close>

datatype 'x wake = WOk | WThrow 'x

text \<open>
  \<open>shared\<close> is the state the tasks share; \<open>index\<close> the loop variable; \<open>callq\<close> the
  queued microtasks \<open>() => fn(item, index)\<close>; \<open>executing\<close> the array of that name, task
  \<open>i\<close> standing for its \<open>executePromise\<close>; \<open>waiting\<close> the tasks suspended on their
  external event; \<open>returned\<close> the tasks whose function has returned and whose promise in
  \<open>results\<close> is about to settle; \<open>reactq\<close> the settled promises whose \<open>then\<close> reaction
  (the \<open>splice\<close> callback) is queued; \<open>woken\<close> the settlement of the awaited race;
  \<open>promises\<close> the settled promises of the array \<open>results\<close>. \<open>started\<close> and
  \<open>finished\<close> record, in order, the tasks whose function was called and has returned.
\<close>

record ('s, 'x, 'r) runner =
  shared :: 's
  index :: nat
  main :: "'x mainst"
  callq :: "nat list"
  executing :: "nat list"
  waiting :: "nat list"
  returned :: "(nat \<times> ('x, 'r) settled) list"
  reactq :: "nat list"
  woken :: "'x wake option"
  promises :: "nat \<Rightarrow> ('x, 'r) settled option"
  started :: "nat list"
  finished :: "nat list"

definition init :: "'s \<Rightarrow> ('s, 'x, 'r) runner" where
  "init sh = \<lparr>shared = sh, index = 0, main = MRun, callq = [], executing = [], waiting = [],
              returned = [], reactq = [], woken = None, promises = (\<lambda>i. None), started = [],
              finished = []\<rparr>"

text \<open>The reason of the first rejected promise among the given tasks, in array order.\<close>

fun first_rejected :: "(nat \<Rightarrow> ('x, 'r) settled option) \<Rightarrow> nat list \<Rightarrow> 'x option" where
  "first_rejected p [] = None"
| "first_rejected p (i # is) =
     (case p i of Some (Rejected x) \<Rightarrow> Some x | _ \<Rightarrow> first_rejected p is)"

definition is_fulfilled :: "('x, 'r) settled option \<Rightarrow> bool" where
  "is_fulfilled v = (case v of Some (Fulfilled r) \<Rightarrow> True | _ \<Rightarrow> False)"

definition all_fulfilled :: "(nat \<Rightarrow> ('x, 'r) settled option) \<Rightarrow> nat \<Rightarrow> bool" where
  "all_fulfilled p n = list_all (\<lambda>i. is_fulfilled (p i)) [0..<n]"

text \<open>
  \<open>executing.splice(executing.indexOf(executePromise), 1)\<close>: an index of \<open>-1\<close> would
  remove the last element.
\<close>

definition splice_out :: "nat \<Rightarrow> nat list \<Rightarrow> nat list" where
  "splice_out i ex = (if i \<in> set ex then remove1 i ex else butlast ex)"

text \<open>
  The loop variable is advanced as soon as the promise of an item is created; the source
  advances it when the iteration ends, after the \<open>await\<close> if there is one, and nothing
  reads it in between. A race over an array that holds an already rejected promise is
  rejected at once (\<open>first_rejected\<close>).

  One step of the event loop between two external events, \<open>None\<close> when it is idle. The
  runner's synchronous code runs first (\<open>loop_step\<close>: one iteration of the \<open>for\<close>
  loop, or its exit); then the queued calls of \<open>fn\<close> (\<open>call_step\<close>), the
  settlements of the promises in \<open>results\<close> (\<open>settle_step\<close>) and their reactions
  (\<open>react_step\<close>), each queue in order; then the continuation of the \<open>await\<close>
  (\<open>wake_step\<close>); last the settlement of \<open>Promise.all(results)\<close>.
\<close>

definition loop_step :: "'t list \<Rightarrow> jsnumber \<Rightarrow> ('s, 'x, 'r) runner \<Rightarrow> ('s, 'x, 'r) runner" where
  "loop_step items limit s =
     (if index s < length items then
        (let s1 = s\<lparr>callq := callq s @ [index s], index := index s + 1\<rparr>
         in if num_le_len limit (length items) then
              (let ex = executing s @ [index s]
               in if len_ge_num (length ex) limit
                  then s1\<lparr>executing := ex, main := MAwait,
                          woken := map_option WThrow (first_rejected (promises s) ex)\<rparr>
                  else s1\<lparr>executing := ex\<rparr>)
            else s1)
      else (case first_rejected (promises s) [0..<length items] of
              Some x \<Rightarrow> s\<lparr>main := MFailed x\<rparr>
            | None \<Rightarrow> s\<lparr>main := MAll\<rparr>))"

definition call_step ::
  "('t, 's, 'e, 'x, 'r) task \<Rightarrow> 't list \<Rightarrow> ('s, 'x, 'r) runner \<Rightarrow> ('s, 'x, 'r) runner"
where
  "call_step fn items s =
     (let i = hd (callq s);
          (sh, r) = call fn (items ! i) i (shared s);
          s1 = s\<lparr>shared := sh, callq := tl (callq s), started := started s @ [i]\<rparr>
      in case r of
           None \<Rightarrow> s1\<lparr>waiting := waiting s @ [i]\<rparr>
         | Some out \<Rightarrow> s1\<lparr>returned := returned s @ [(i, out)], finished := finished s @ [i]\<rparr>)"

definition settle_step :: "'t list \<Rightarrow> jsnumber \<Rightarrow> ('s, 'x, 'r) runner \<Rightarrow> ('s, 'x, 'r) runner" where
  "settle_step items limit s =
     (let (i, out) = hd (returned s);
          s1 = s\<lparr>returned := tl (returned s), promises := (promises s)(i \<mapsto> out),
                 reactq := (if num_le_len limit (length items) then reactq s @ [i] else reactq s)\<rparr>
      in case out of
           Rejected x \<Rightarrow> (if main s = MAll then s1\<lparr>main := MFailed x\<rparr> else s1)
         | Fulfilled r \<Rightarrow> s1)"

definition react_step :: "('s, 'x, 'r) runner \<Rightarrow> ('s, 'x, 'r) runner" where
  "react_step s =
     (let i = hd (reactq s);
          s1 = s\<lparr>reactq := tl (reactq s)\<rparr>
      in case promises s i of
           Some (Fulfilled r) \<Rightarrow>
             s1\<lparr>executing := splice_out i (executing s),
                woken := (if main s = MAwait \<and> woken s = None then Some WOk else woken s)\<rparr>
         | Some (Rejected x) \<Rightarrow>
             s1\<lparr>woken := (if main s = MAwait \<and> woken s = None then Some (WThrow x) else woken s)\<rparr>
         | None \<Rightarrow> s1)"

definition wake_step :: "('s, 'x, 'r) runner \<Rightarrow> ('s, 'x, 'r) runner" where
  "wake_step s =
     (case woken s of
        Some (WThrow x) \<Rightarrow> s\<lparr>main := MFailed x, woken := None\<rparr>
      | _ \<Rightarrow> s\<lparr>main := MRun, woken := None\<rparr>)"

definition step ::
  "('t, 's, 'e, 'x, 'r) task \<Rightarrow> 't list \<Rightarrow> jsnumber \<Rightarrow> ('s, 'x, 'r) runner \<Rightarrow> ('s, 'x, 'r) runner option"
where
  "step fn items limit s =
    (if main s = MRun then Some (loop_step items limit s)
     else if callq s \<noteq> [] then Some (call_step fn items s)
     else if returned s \<noteq> [] then Some (settle_step items limit s)
     else if reactq s \<noteq> [] then Some (react_step s)
     else if main s = MAwait \<and> woken s \<noteq> None then Some (wake_step s)
     else if main s = MAll \<and> all_fulfilled (promises s) (length items) then Some (s\<lparr>main := MDone\<rparr>)
     else None)"

text \<open>
  An external event \<open>(k, e)\<close>: the event \<open>e\<close> arrives for one of the suspended tasks,
  chosen by \<open>k\<close>, and the task runs on, to its end or to its next \<open>await\<close>. With no task
  suspended nothing happens.
\<close>

definition deliver ::
  "('t, 's, 'e, 'x, 'r) task \<Rightarrow> 't list \<Rightarrow> nat \<times> 'e \<Rightarrow> ('s, 'x, 'r) runner \<Rightarrow> ('s, 'x, 'r) runner"
where
  "deliver fn items ev s =
    (if waiting s = [] then s
     else (let i = waiting s ! (fst ev mod length (waiting s));
               (sh, out) = resume fn (items ! i) i (snd ev) (shared s)
           in case out of
                None \<Rightarrow> s\<lparr>shared := sh\<rparr>
              | Some v \<Rightarrow> s\<lparr>shared := sh, waiting := remove1 i (waiting s),
                           returned := returned s @ [(i, v)], finished := finished s @ [i]\<rparr>))"

text \<open>The measure that every step decreases.\<close>

definition weight :: "'t list \<Rightarrow> ('s, 'x, 'r) runner \<Rightarrow> nat" where
  "weight items s =
     10 * (length items - index s) + 6 * length (callq s) + 5 * length (returned s)
     + 4 * length (reactq s) + (case woken s of None \<Rightarrow> 0 | Some w \<Rightarrow> 3)
     + (case main s of MRun \<Rightarrow> 2 | MAll \<Rightarrow> 1 | _ \<Rightarrow> 0)"

text \<open>The event loop runs until it is idle.\<close>

function drain ::
  "('t, 's, 'e, 'x, 'r) task \<Rightarrow> 't list \<Rightarrow> jsnumber \<Rightarrow> ('s, 'x, 'r) runner \<Rightarrow> ('s, 'x, 'r) runner"
where
  "drain fn items limit s =
     (case step fn items limit s of None \<Rightarrow> s | Some s' \<Rightarrow> drain fn items limit s')"
  by pat_completeness auto

lemma loop_step_weight: "main s = MRun \<Longrightarrow> weight items (loop_step items limit s) < weight items s"
  by (auto simp: loop_step_def weight_def Let_def split: option.splits)

lemma call_step_weight: "callq s \<noteq> [] \<Longrightarrow> weight items (call_step fn items s) < weight items s"
  by (cases "callq s") (auto simp: call_step_def weight_def Let_def split: option.splits prod.splits)

lemma settle_step_weight:
  "returned s \<noteq> [] \<Longrightarrow> weight items (settle_step items limit s) < weight items s"
  by (cases "returned s")
    (auto simp: settle_step_def weight_def Let_def split: settled.splits prod.splits mainst.splits)

lemma react_step_weight: "reactq s \<noteq> [] \<Longrightarrow> weight items (react_step s) < weight items s"
  by (cases "reactq s") (auto simp: react_step_def weight_def Let_def split: option.splits settled.splits)

lemma wake_step_weight:
  "main s = MAwait \<Longrightarrow> woken s \<noteq> None \<Longrightarrow> weight items (wake_step s) < weight items s"
  by (auto simp: wake_step_def weight_def split: option.splits wake.splits)

lemma step_weight:
  assumes "step fn items limit s = Some s'"
  shows "weight items s' < weight items s"
proof -
  have "weight items (s\<lparr>main := MDone\<rparr>) < weight items s" if "main s = MAll"
    using that by (simp add: weight_def)
  with assms show ?thesis
    unfolding step_def
    by (auto simp: loop_step_weight call_step_weight settle_step_weight react_step_weight
        wake_step_weight split: if_splits)
qed

termination drain
  by (relation "measure (\<lambda>(fn, items, limit, s). weight items s)") (auto simp: step_weight)

declare drain.simps [simp del]

text \<open>
  A run: the call of \<open>runWithConcurrencyLimit\<close> up to the first idle point, then one
  external event after the other, each followed by the microtasks it causes.
\<close>

definition runWithConcurrencyLimit ::
  "('t, 's, 'e, 'x, 'r) task \<Rightarrow> 't list \<Rightarrow> jsnumber \<Rightarrow> 's \<Rightarrow> (nat \<times> 'e) list \<Rightarrow> ('s, 'x, 'r) runner"
where
  "runWithConcurrencyLimit fn items limit sh sched =
     foldl (\<lambda>s ev. drain fn items limit (deliver fn items ev s)) (drain fn items limit (init sh)) sched"

text \<open>The states a run passes through, step by step.\<close>

inductive reach ::
  "('t, 's, 'e, 'x, 'r) task \<Rightarrow> 't list \<Rightarrow> jsnumber \<Rightarrow> 's \<Rightarrow> ('s, 'x, 'r) runner \<Rightarrow> bool"
  for fn items limit sh
where
  reach_init: "reach fn items limit sh (init sh)"
| reach_step: "reach fn items limit sh s \<Longrightarrow> step fn items limit s = Some s' \<Longrightarrow> reach fn items limit sh s'"
| reach_event: "reach fn items limit sh s \<Longrightarrow> step fn items limit s = None
                \<Longrightarrow> reach fn items limit sh (deliver fn items ev s)"

text \<open>The tasks in flight: started, and their promise not yet settled.\<close>

definition inflight :: "('s, 'x, 'r) runner \<Rightarrow> nat list" where
  "inflight s = filter (\<lambda>i. promises s i = None) (started s)"

text \<open>
  What the promise returned by the runner holds: nothing yet, the values of the tasks in
  the order of the items, or the reason of the rejection.
\<close>

definition value_of :: "('x, 'r) settled option \<Rightarrow> 'r option" where
  "value_of v = (case v of Some (Fulfilled r) \<Rightarrow> Some r | _ \<Rightarrow> None)"

definition runner_result :: "'t list \<Rightarrow> ('s, 'x, 'r) runner \<Rightarrow> ('x + 'r option list) option" where
  "runner_result items s =
     (case main s of
        MDone \<Rightarrow> Some (Inr (map (\<lambda>i. value_of (promises s i)) [0..<length items]))
      | MFailed x \<Rightarrow> Some (Inl x)
      | _ \<Rightarrow> None)"

text \<open>
  What a run does to the shared state: the task function is called for a task, or resumes
  a suspended task with an event, and each time acts on the state the previous invocation
  left. \<open>replay\<close> applies a sequence of invocations in order, and \<open>calls_of\<close> is the
  sequence of the tasks called in it.
\<close>

datatype 'e invocation = Called nat | Resumed nat 'e

fun replay :: "('t, 's, 'e, 'x, 'r) task \<Rightarrow> 't list \<Rightarrow> 'e invocation list \<Rightarrow> 's \<Rightarrow> 's" where
  "replay fn items [] sh = sh"
| "replay fn items (Called i # l) sh = replay fn items l (fst (call fn (items ! i) i sh))"
| "replay fn items (Resumed i e # l) sh = replay fn items l (fst (resume fn (items ! i) i e sh))"

fun calls_of :: "'e invocation list \<Rightarrow> nat list" where
  "calls_of [] = []"
| "calls_of (Called i # l) = i # calls_of l"
| "calls_of (Resumed i e # l) = calls_of l"

section \<open>The batch deletion\<close>

record DeletionResult =
  snapshot :: string
  success :: bool
  error :: "string option"

datatype toast_style = Animated | Success | Failure

record toast =
  style :: toast_style
  title :: string
  message :: string

text \<open>The state \<open>deletionProgress\<close> of the component: \<open>current\<close>, \<open>total\<close>, \<open>snapshot\<close>.\<close>

record progress =
  current :: nat
  total :: nat
  processing :: string

text \<open>
  What the tasks of one deletion do, in order: a task starts; it invokes the deletion
  command; it skips; the outcome of its command arrives; it sets \<open>authFailed\<close>.
\<close>

datatype ds_event =
    TStart nat
  | TSpawn nat string
  | TSkip nat
  | TDone nat exec_outcome
  | TAuth nat

text \<open>
  The variables that the tasks of \<open>deleteSnapshots\<close> share: the array \<open>results\<close>, the
  counter \<open>completedCount\<close>, the flag \<open>authFailed\<close>, the progress shown, the message of
  the animated toast, the toasts shown by the tasks, and the record of their events.
\<close>

record ds_state =
  results :: "DeletionResult list"
  completedCount :: nat
  authFailed :: bool
  deletionProgress :: progress
  toastMessage :: string
  shownToasts :: "toast list"
  trace :: "ds_event list"

text \<open>
  The \<open>catch\<close> block's reading of a thrown value: the error message to record, and
  whether the failure is an authentication error.
\<close>

definition classifyError :: "thrown \<Rightarrow> string \<times> bool" where
  "classifyError e =
     (case e of
        ExecError msg err out \<Rightarrow>
          (let (m, auth) =
                 (if truthy err
                  then (the err, str_includes (the err) ''Sorry'' \<or> str_includes (the err) ''incorrect password'')
                  else (msg, False))
           in (if truthy out \<and> m = ''Unknown error'' then the out else m, auth))
      | ThrownOther \<Rightarrow> (''Unknown error'', False))"

definition skippedResult :: "string \<Rightarrow> DeletionResult" where
  "skippedResult snapshotDate =
     \<lparr>snapshot = snapshotDate, success = False,
      error = Some ''Skipped due to previous authentication failure''\<rparr>"

text \<open>The result a task records when the outcome of its command arrives.\<close>

definition outcomeResult :: "string \<Rightarrow> exec_outcome \<Rightarrow> DeletionResult" where
  "outcomeResult snapshotDate ev =
     (case ev of
        ExecOk out \<Rightarrow> \<lparr>snapshot = snapshotDate, success = True, error = None\<rparr>
      | ExecFailed e \<Rightarrow> \<lparr>snapshot = snapshotDate, success = False, error = Some (fst (classifyError e))\<rparr>)"

definition progressMessage :: "nat \<Rightarrow> nat \<Rightarrow> string" where
  "progressMessage c n = showNat c @ ''/'' @ showNat n @ '' completed''"

definition authToast :: toast where
  "authToast = \<lparr>style = Failure, title = ''Authentication Failed'',
                message = ''Incorrect password. Stopping deletion.''\<rparr>"

text \<open>
  The task function up to its \<open>await\<close>: with \<open>authFailed\<close> set it records the skipped
  result and returns; otherwise it shows the progress and invokes the command.
\<close>

definition task_call ::
  "string \<Rightarrow> nat \<Rightarrow> string \<Rightarrow> nat \<Rightarrow> ds_state \<Rightarrow> ds_state \<times> (unit, unit) settled option"
where
  "task_call escapedPassword n snapshotDate idx sh =
     (if authFailed sh
      then (sh\<lparr>results := results sh @ [skippedResult snapshotDate],
               trace := trace sh @ [TStart idx, TSkip idx]\<rparr>,
            Some (Fulfilled ()))
      else (sh\<lparr>deletionProgress := \<lparr>current = completedCount sh, total = n, processing = snapshotDate\<rparr>,
               trace := trace sh @ [TStart idx, TSpawn idx (deleteCommand escapedPassword snapshotDate)]\<rparr>,
            None))"

text \<open>The task function after its \<open>await\<close>: the rest of the \<open>try\<close> block, or the \<open>catch\<close> block.\<close>

definition task_resume ::
  "nat \<Rightarrow> string \<Rightarrow> nat \<Rightarrow> exec_outcome \<Rightarrow> ds_state \<Rightarrow> ds_state \<times> (unit, unit) settled option"
where
  "task_resume n snapshotDate idx ev sh =
     (case ev of
        ExecOk out \<Rightarrow>
          (let c = completedCount sh + 1
           in (sh\<lparr>results := results sh @ [\<lparr>snapshot = snapshotDate, success = True, error = None\<rparr>],
                  completedCount := c,
                  deletionProgress := \<lparr>current = c, total = n, processing = []\<rparr>,
                  toastMessage := progressMessage c n,
                  trace := trace sh @ [TDone idx ev]\<rparr>,
               Some (Fulfilled ())))
      | ExecFailed e \<Rightarrow>
          (let (errorMessage, isAuthError) = classifyError e;
               c = completedCount sh + 1
           in (sh\<lparr>authFailed := (isAuthError \<or> authFailed sh),
                  results := results sh @ [\<lparr>snapshot = snapshotDate, success = False, error = Some errorMessage\<rparr>],
                  shownToasts := shownToasts sh @ (if isAuthError then [authToast] else []),
                  completedCount := c,
                  toastMessage := progressMessage c n,
                  trace := trace sh @ [TDone idx ev] @ (if isAuthError then [TAuth idx] else [])\<rparr>,
               Some (Fulfilled ()))))"

definition deleteTask :: "string \<Rightarrow> nat \<Rightarrow> (string, ds_state, exec_outcome, unit, unit) task" where
  "deleteTask pw n = \<lparr>call = task_call (escapeSingleQuote pw) n, resume = task_resume n\<rparr>"

definition initialState :: "nat \<Rightarrow> ds_state" where
  "initialState n =
     \<lparr>results = [], completedCount = 0, authFailed = False,
      deletionProgress = \<lparr>current = 0, total = n, processing = []\<rparr>,
      toastMessage = progressMessage 0 n, shownToasts = [], trace = []\<rparr>"

text \<open>The toast that ends a deletion, from the array \<open>results\<close>.\<close>

definition summaryToast :: "DeletionResult list \<Rightarrow> toast" where
  "summaryToast rs =
     (let successful = length (filter success rs);
          failed = length (filter (\<lambda>r. \<not> success r) rs)
      in if failed = 0
         then \<lparr>style = Success, title = ''All snapshots deleted successfully'',
               message = showNat successful @ '' snapshot(s) deleted''\<rparr>
         else if successful = 0
         then \<lparr>style = Failure, title = ''Failed to delete snapshots'',
               message =
                 (case find (\<lambda>r. \<not> success r) rs of
                    Some firstError \<Rightarrow>
                      (if truthy (error firstError)
                       then ''Error: '' @ substring0 100 (the (error firstError)) @ ''...''
                       else ''All '' @ showNat failed @ '' deletion(s) failed'')
                  | None \<Rightarrow> ''All '' @ showNat failed @ '' deletion(s) failed'')\<rparr>
         else \<lparr>style = Failure, title = ''Partially completed'',
               message = showNat successful @ '' deleted, '' @ showNat failed @ '' failed''\<rparr>)"

text \<open>The toasts with the details of the failures: at most three, then their number.\<close>

definition detailToasts :: "DeletionResult list \<Rightarrow> toast list" where
  "detailToasts rs =
     (let failedResults = filter (\<lambda>r. \<not> success r) rs
      in map (\<lambda>r. \<lparr>style = Failure, title = ''Failed: '' @ snapshot r,
                    message = or_else (map_option (substring0 200) (error r)) ''Unknown error''\<rparr>)
             (take 3 failedResults)
         @ (if length failedResults > 3
            then [\<lparr>style = Failure, title = ''More errors'',
                   message = showNat (length failedResults - 3)
                     @ '' more deletion(s) failed. Check console logs.''\<rparr>]
            else []))"

text \<open>
  How a call of \<open>deleteSnapshots\<close> ends: with the toast for an empty selection; after the
  user declined; not at all, while the runner's promise is pending; with an exception,
  when the runner's promise is rejected; or with the shared state, the final toast and the
  detail toasts.
\<close>

datatype report =
    NoSelection toast
  | Cancelled
  | Unfinished
  | Thrown
  | Finished ds_state toast "toast list"

text \<open>
  \<open>deleteSnapshots(password)\<close>, from the selection (a list without repetition, the
  order of the set), the user's answer to the confirmation, the password \<open>pw\<close>, the
  preference and the external events of the run.
\<close>

definition deleteSnapshots ::
  "string list \<Rightarrow> bool \<Rightarrow> string \<Rightarrow> string option \<Rightarrow> (nat \<times> exec_outcome) list \<Rightarrow> report"
where
  "deleteSnapshots selectedSnapshots confirmed pw pref sched =
     (if selectedSnapshots = []
      then NoSelection \<lparr>style = Failure, title = ''No snapshots selected'',
                        message = ''Please select at least one snapshot to delete''\<rparr>
      else if \<not> confirmed then Cancelled
      else (let snapshotsToDelete = selectedSnapshots;
                n = length snapshotsToDelete;
                s = runWithConcurrencyLimit (deleteTask pw n) snapshotsToDelete
                      (concurrencyLimit pref) (initialState n) sched
            in case runner_result snapshotsToDelete s of
                 Some (Inr vs) \<Rightarrow>
                   Finished (shared s) (summaryToast (results (shared s))) (detailToasts (results (shared s)))
               | Some (Inl x) \<Rightarrow> Thrown
               | None \<Rightarrow> Unfinished))"


section \<open>Strings and the concurrency preference\<close>

lemma takeWhile_all: "\<forall>x \<in> set xs. P x \<Longrightarrow> takeWhile P xs = xs"
  by simp

lemma dropWhile_all: "\<forall>x \<in> set xs. P x \<Longrightarrow> dropWhile P xs = []"
  by simp

lemma trim_all_white:
  assumes "\<forall>c \<in> set s. isWhiteSpace c"
  shows "trim s = []"
  unfolding trim_def dropWhile_all [OF assms] by simp

lemma digitChar_props:
  assumes "d < 10"
  shows "isDigit (digitChar d)" and "digitVal (digitChar d) = int d"
proof -
  from assms have "d \<in> {0, 1, 2, 3, 4, 5, 6, 7, 8, 9}" by auto
  then show "isDigit (digitChar d)" and "digitVal (digitChar d) = int d"
    by (auto simp: isDigit_def digitVal_def digitChar_def)
qed

lemma isDigit_not_special:
  assumes "isDigit c"
  shows "\<not> isWhiteSpace c" and "c \<noteq> CHR ''-''" and "c \<noteq> CHR ''+''"
  using assms by (auto simp: isDigit_def isWhiteSpace_def)

lemma showNat_digits: "\<forall>c \<in> set (showNat n). isDigit c"
proof (induction n rule: showNat.induct)
  case (1 n)
  show ?case
  proof (cases "n < 10")
    case True
    then show ?thesis by (subst showNat.simps) (simp add: digitChar_props)
  next
    case False
    with 1 show ?thesis by (subst showNat.simps) (simp add: digitChar_props)
  qed
qed

lemma showNat_nonempty: "showNat n \<noteq> []"
  by (subst showNat.simps) simp

lemma showNat_value: "foldl (\<lambda>acc c. 10 * acc + digitVal c) 0 (showNat n) = int n"
proof (induction n rule: showNat.induct)
  case (1 n)
  show ?case
  proof (cases "n < 10")
    case True
    then show ?thesis by (subst showNat.simps) (simp add: digitChar_props)
  next
    case False
    then have m: "n mod 10 < 10" by simp
    have a: "10 * int (n div 10) + int (n mod 10) = int n" by presburger
    from False 1 have ih: "foldl (\<lambda>acc c. 10 * acc + digitVal c) 0 (showNat (n div 10)) = int (n div 10)"
      by simp
    show ?thesis
      by (subst showNat.simps) (simp add: False ih digitChar_props(2) [OF m] a)
  qed
qed

lemma bitLength_bounds: "n < 2 ^ bitLength n \<and> (0 < n \<longrightarrow> 2 ^ (bitLength n - 1) \<le> n)"
proof (induction n rule: bitLength.induct)
  case (1 n)
  show ?case
  proof (cases "n = 0")
    case True
    then show ?thesis by (subst bitLength.simps) simp
  next
    case False
    from 1 [OF False] have ih: "n div 2 < 2 ^ bitLength (n div 2)"
      "0 < n div 2 \<longrightarrow> 2 ^ (bitLength (n div 2) - 1) \<le> n div 2" by simp_all
    have e: "bitLength n = Suc (bitLength (n div 2))" using False by (subst bitLength.simps) simp
    from ih(1) have a: "n < 2 ^ bitLength n" unfolding e by simp
    have b: "2 ^ (bitLength n - 1) \<le> n"
    proof (cases "n div 2 = 0")
      case True
      then have "bitLength (n div 2) = 0" by (subst bitLength.simps) simp
      with False show ?thesis unfolding e by simp
    next
      case nz: False
      then have "0 < bitLength (n div 2)" by (subst bitLength.simps) simp
      then obtain k where k: "bitLength (n div 2) = Suc k" by (cases "bitLength (n div 2)") auto
      from ih(2) nz have "2 ^ k \<le> n div 2" unfolding k by simp
      then have "2 * 2 ^ k \<le> n" by simp
      then show ?thesis unfolding e k by simp
    qed
    from a b show ?thesis by simp
  qed
qed

lemma bitLength_le: "n < 2 ^ k \<Longrightarrow> bitLength n \<le> k"
proof (rule ccontr)
  assume a: "n < 2 ^ k" and "\<not> bitLength n \<le> k"
  then have k: "k \<le> bitLength n - 1" and p: "0 < n"
    by (auto simp: bitLength.simps [of n] split: if_splits)
  from k have "(2::nat) ^ k \<le> 2 ^ (bitLength n - 1)" by (rule power_increasing) simp
  also from bitLength_bounds [of n] p have "\<dots> \<le> n" by simp
  also note a
  finally show False by simp
qed

lemma bitLength_numeral [simp]:
  "bitLength 0 = 0"
  "bitLength 1 = 1"
  "bitLength (Suc 0) = 1"
  "bitLength (numeral (Num.Bit0 k)) = Suc (bitLength (numeral k))"
  "bitLength (numeral (Num.Bit1 k)) = Suc (bitLength (numeral k))"
proof -
  show "bitLength 0 = 0" by (subst bitLength.simps) simp
  show "bitLength 1 = 1" by (subst bitLength.simps) (simp add: bitLength.simps [of 0])
  then show "bitLength (Suc 0) = 1" by simp
  show "bitLength (numeral (Num.Bit0 k)) = Suc (bitLength (numeral k))"
    by (subst bitLength.simps) simp
  have "numeral (Num.Bit1 k) div (2::nat) = numeral k" by simp
  then show "bitLength (numeral (Num.Bit1 k)) = Suc (bitLength (numeral k))"
    by (subst bitLength.simps) simp
qed

lemma roundToDouble_exact:
  assumes "n \<le> 2 ^ 53"
  shows "roundToDouble n = Some n"
proof (cases "n = 2 ^ 53")
  case True
  have "roundToDouble 9007199254740992 = Some 9007199254740992"
    by (simp add: roundToDouble_def Let_def)
  then show ?thesis unfolding True by simp
next
  case False
  with assms have "n < 2 ^ 53" by simp
  from bitLength_le [OF this] show ?thesis by (simp add: roundToDouble_def)
qed

lemma roundToDouble_overflow:
  assumes "2 ^ 1024 \<le> n"
  shows "roundToDouble n = None"
proof -
  let ?e = "bitLength n"
  have p: "0 < n" by (rule less_le_trans [OF _ assms]) simp
  have up: "n < 2 ^ ?e" and lo: "2 ^ (?e - 1) \<le> n" using bitLength_bounds [of n] p by simp_all
  have e: "1024 < ?e"
  proof (rule ccontr)
    assume "\<not> 1024 < ?e"
    then have "?e \<le> 1024" by simp
    then have "(2::nat) ^ ?e \<le> 2 ^ 1024" by (rule power_increasing) simp
    from less_le_trans [OF up this] assms show False
      by (rule less_le_not_le [THEN iffD1, THEN conjunct2, THEN notE])
  qed
  define sh where "sh = ?e - 53"
  define top :: nat where "top = 2 ^ 1024"
  have s: "?e - 1 = 52 + sh" and s2: "1024 \<le> 52 + sh" using e by (simp_all add: sh_def)
  have "(2::nat) ^ 52 * 2 ^ sh \<le> n" using lo unfolding s by (simp only: power_add)
  then have q: "2 ^ 52 \<le> n div 2 ^ sh"
    by (simp only: less_eq_div_iff_mult_less_eq zero_less_power zero_less_numeral)
  have big: "top \<le> 2 ^ 52 * 2 ^ sh"
  proof -
    from s2 have "(2::nat) ^ 1024 \<le> 2 ^ (52 + sh)" by (rule power_increasing) simp
    then show ?thesis unfolding top_def by (simp only: power_add)
  qed
  have m: "top \<le> q1 * 2 ^ sh" if "n div 2 ^ sh \<le> q1" for q1 :: nat
  proof -
    from q that have "2 ^ 52 \<le> q1" by (rule le_trans)
    then have "(2::nat) ^ 52 * 2 ^ sh \<le> q1 * 2 ^ sh" by (rule mult_le_mono1)
    with big show ?thesis by (rule le_trans)
  qed
  from e have ne: "\<not> ?e \<le> 53" by simp
  have d: "roundToDouble n =
      (let q = n div 2 ^ sh; r = n mod 2 ^ sh; half = 2 ^ (sh - 1);
           q1 = (if half < r \<or> (r = half \<and> odd q) then q + 1 else q);
           d = q1 * 2 ^ sh
       in if top \<le> d then None else Some d)"
    unfolding roundToDouble_def top_def sh_def using ne by (simp only: Let_def if_False)
  show ?thesis unfolding d Let_def using m [of "n div 2 ^ sh"] m [of "n div 2 ^ sh + 1"]
    by (simp only: if_True split: if_splits) simp
qed

lemma numberValue_exact:
  assumes "n \<le> 2 ^ 53"
  shows "numberValue False n = Num (int n)" and "0 < n \<Longrightarrow> numberValue True n = Num (- int n)"
  using roundToDouble_exact [OF assms] by (simp_all add: numberValue_def)

lemma numberValue_overflow:
  assumes "2 ^ 1024 \<le> n"
  shows "numberValue False n = PosInfinity" and "numberValue True n = NegInfinity"
proof -
  have "0 < n" by (rule less_le_trans [OF _ assms]) simp
  then show "numberValue False n = PosInfinity" and "numberValue True n = NegInfinity"
    using roundToDouble_overflow [OF assms] by (simp_all add: numberValue_def)
qed

lemma parseInt10_digits:
  assumes "z \<noteq> []" and "\<forall>c \<in> set z. isDigit c"
  shows "parseInt10 z = numberValue False (nat (foldl (\<lambda>acc c. 10 * acc + digitVal c) 0 z))"
proof -
  from assms obtain c cs where z: "z = c # cs" by (cases z) auto
  with assms have c: "isDigit c" by simp
  have dw: "dropWhile isWhiteSpace z = z" using z isDigit_not_special(1) [OF c] by simp
  have hd: "hd z \<noteq> CHR ''-''" "hd z \<noteq> CHR ''+''" using z isDigit_not_special [OF c] by simp_all
  show ?thesis unfolding parseInt10_def dw using hd assms(1)
    by (simp add: Let_def takeWhile_all [OF assms(2)])
qed

lemma parseInt10_showNat: "parseInt10 (showNat n) = numberValue False n"
  using parseInt10_digits [OF showNat_nonempty] showNat_digits showNat_value by simp

lemma parseInt10_neg_showNat: "parseInt10 (CHR ''-'' # showNat n) = numberValue True n"
proof -
  have dw: "dropWhile isWhiteSpace (CHR ''-'' # showNat n) = CHR ''-'' # showNat n"
    by (simp add: isWhiteSpace_def)
  show ?thesis unfolding parseInt10_def dw
    by (simp add: Let_def takeWhile_all [OF showNat_digits] showNat_nonempty showNat_value)
qed

lemma parseInt10_no_digit:
  assumes "s \<noteq> []" and "\<not> isWhiteSpace (hd s)" and "hd s \<noteq> CHR ''-''" and "hd s \<noteq> CHR ''+''"
    and "\<not> isDigit (hd s)"
  shows "parseInt10 s = NaN"
proof -
  from assms obtain c cs where s: "s = c # cs" by (cases s) auto
  with assms show ?thesis unfolding parseInt10_def by (simp add: Let_def)
qed

lemma parseInt10_three: "parseInt10 ''3'' = Num 3"
  by (simp add: parseInt10_def isWhiteSpace_def isDigit_def digitVal_def numberValue_def
      roundToDouble_def)

text \<open>
  Claim C6, as stated, fails: the preference \<open>abc\<close> gives \<open>NaN\<close> and not 3, and the
  preference \<open>9\<close> gives 9, outside 1 to 5.
\<close>

theorem concurrencyLimit_not_clamped:
  "concurrencyLimit (Some ''abc'') = NaN \<and> concurrencyLimit (Some ''9'') = Num 9"
  by (simp add: concurrencyLimit_def or_else_def parseInt10_def isWhiteSpace_def isDigit_def
      digitVal_def numberValue_def roundToDouble_def)

text \<open>
  Claim C6, amended: the limit is 3 when the preference is absent or the empty string. For a
  preference that is the decimal text of \<open>n\<close>, with or without a minus sign, it is the
  number value of that integer, never clamped: the integer itself up to \<open>2 ^ 53\<close>, the
  nearest double beyond that, and an infinity from \<open>2 ^ 1024\<close> on. For a preference whose
  first character is neither white space, a sign nor a digit it is \<open>NaN\<close>.
\<close>

theorem concurrencyLimit_parse:
  "concurrencyLimit None = Num 3 \<and> concurrencyLimit (Some []) = Num 3
   \<and> concurrencyLimit (Some (showNat n)) = numberValue False n
   \<and> concurrencyLimit (Some (CHR ''-'' # showNat n)) = numberValue True n
   \<and> (n \<le> 2 ^ 53 \<longrightarrow> concurrencyLimit (Some (showNat n)) = Num (int n))
   \<and> (0 < n \<and> n \<le> 2 ^ 53 \<longrightarrow> concurrencyLimit (Some (CHR ''-'' # showNat n)) = Num (- int n))
   \<and> (2 ^ 1024 \<le> n \<longrightarrow> concurrencyLimit (Some (showNat n)) = PosInfinity
          \<and> concurrencyLimit (Some (CHR ''-'' # showNat n)) = NegInfinity)
   \<and> (s \<noteq> [] \<and> \<not> isWhiteSpace (hd s) \<and> hd s \<noteq> CHR ''-'' \<and> hd s \<noteq> CHR ''+'' \<and> \<not> isDigit (hd s)
        \<longrightarrow> concurrencyLimit (Some s) = NaN)"
proof -
  have a: "concurrencyLimit None = Num 3" "concurrencyLimit (Some []) = Num 3"
    by (simp_all add: concurrencyLimit_def or_else_def parseInt10_three)
  have b: "concurrencyLimit (Some (showNat n)) = numberValue False n"
    by (simp add: concurrencyLimit_def or_else_def showNat_nonempty parseInt10_showNat)
  have c: "concurrencyLimit (Some (CHR ''-'' # showNat n)) = numberValue True n"
    by (simp add: concurrencyLimit_def or_else_def parseInt10_neg_showNat)
  have d: "concurrencyLimit (Some s) = NaN"
    if "s \<noteq> []" "\<not> isWhiteSpace (hd s)" "hd s \<noteq> CHR ''-''" "hd s \<noteq> CHR ''+''" "\<not> isDigit (hd s)"
    using that by (simp add: concurrencyLimit_def or_else_def parseInt10_no_digit)
  have e: "concurrencyLimit (Some (showNat n)) = Num (int n)" if "n \<le> 2 ^ 53"
    unfolding b by (rule numberValue_exact(1) [OF that])
  have f: "concurrencyLimit (Some (CHR ''-'' # showNat n)) = Num (- int n)" if "0 < n" "n \<le> 2 ^ 53"
    unfolding c by (rule numberValue_exact(2) [OF that(2) that(1)])
  have g: "concurrencyLimit (Some (showNat n)) = PosInfinity"
    "concurrencyLimit (Some (CHR ''-'' # showNat n)) = NegInfinity" if "2 ^ 1024 \<le> n"
    unfolding b c by (rule numberValue_overflow [OF that])+
  from a b c d e f g show ?thesis by blast
qed

theorem concurrencyLimit_parse_witness:
  "concurrencyLimit None = Num 3 \<and> concurrencyLimit (Some (showNat 12)) = Num 12
   \<and> concurrencyLimit (Some (CHR ''-'' # showNat 2)) = Num (- 2)
   \<and> concurrencyLimit (Some (CHR ''-'' # showNat 0)) = NegZero
   \<and> concurrencyLimit (Some (showNat 9007199254740993)) = Num 9007199254740992
   \<and> concurrencyLimit (Some (showNat (2 ^ 1024))) = PosInfinity
   \<and> concurrencyLimit (Some ''many'') = NaN"
proof -
  have m: "''many'' \<noteq> [] \<and> \<not> isWhiteSpace (hd ''many'') \<and> hd ''many'' \<noteq> CHR ''-''
      \<and> hd ''many'' \<noteq> CHR ''+'' \<and> \<not> isDigit (hd ''many'')"
    by (simp add: isWhiteSpace_def isDigit_def)
  have r: "numberValue False 9007199254740993 = Num 9007199254740992"
    by (simp add: numberValue_def roundToDouble_def Let_def)
  have z: "numberValue True 0 = NegZero" by (simp add: numberValue_def)
  have v: "numberValue False 12 = Num 12"
    by (simp add: numberValue_def roundToDouble_def Let_def)
  from concurrencyLimit_parse [of 12 "''many''"] m
  have a: "concurrencyLimit None = Num 3" "concurrencyLimit (Some ''many'') = NaN" by blast+
  from concurrencyLimit_parse [of 12 "''many''"] v
  have a2: "concurrencyLimit (Some (showNat 12)) = Num 12" by (simp only:)
  have v2: "numberValue True 2 = Num (- 2)"
    by (simp add: numberValue_def roundToDouble_def Let_def)
  from concurrencyLimit_parse [of 2 "''many''"] v2
  have b: "concurrencyLimit (Some (CHR ''-'' # showNat 2)) = Num (- 2)" by (simp only:)
  from concurrencyLimit_parse [of 0 "''many''"] z
  have c: "concurrencyLimit (Some (CHR ''-'' # showNat 0)) = NegZero" by (simp only:)
  from concurrencyLimit_parse [of 9007199254740993 "''many''"] r
  have d: "concurrencyLimit (Some (showNat 9007199254740993)) = Num 9007199254740992"
    by (simp only:)
  from concurrencyLimit_parse [of "2 ^ 1024" "''many''"] le_refl [of "2 ^ 1024 :: nat"]
  have e: "concurrencyLimit (Some (showNat (2 ^ 1024))) = PosInfinity" by blast
  from a a2 b c d e show ?thesis by (simp only: simp_thms)
qed

section \<open>Credential verification\<close>

text \<open>
  Claim C9: a password that is empty or consists of white space only is rejected by
  \<open>handleSubmit\<close> with the error "Please enter your password"; no command is executed,
  nothing is submitted and the form stays.
\<close>

theorem handleSubmit_blank_rejected:
  assumes "\<forall>c \<in> set pw. isWhiteSpace c"
  shows "handleSubmit env (st\<lparr>password := pw\<rparr>)
         = \<lparr>form = st\<lparr>password := pw, ferror := Some ''Please enter your password''\<rparr>,
            executed = [], submitted = None, popped = False\<rparr>"
  using trim_all_white [OF assms] by (simp add: handleSubmit_def)

theorem handleSubmit_blank_rejected_witness:
  "executed (handleSubmit (\<lambda>c. ExecOk []) \<lparr>password = [CHR 0x20, CHR 0x09], isVerifying = False, ferror = None\<rparr>) = []
   \<and> ferror (form (handleSubmit (\<lambda>c. ExecOk []) \<lparr>password = [CHR 0x20, CHR 0x09], isVerifying = False, ferror = None\<rparr>))
       = Some ''Please enter your password''"
proof -
  have h: "\<forall>c \<in> set [CHR 0x20, CHR 0x09]. isWhiteSpace c" by (simp add: isWhiteSpace_def)
  from handleSubmit_blank_rejected [OF h, of "\<lambda>c. ExecOk []" "\<lparr>password = [], isVerifying = False, ferror = None\<rparr>"]
  show ?thesis by simp
qed

section \<open>Invariants of the runner\<close>

text \<open>The tasks created and not yet settled, wherever they stand.\<close>

definition unsettled :: "('s, 'x, 'r) runner \<Rightarrow> nat list" where
  "unsettled s = callq s @ waiting s @ map fst (returned s)"

text \<open>
  Bookkeeping: the tasks created are those below the loop variable; each is queued,
  suspended, returned or settled, and only one of these; \<open>started\<close> and \<open>finished\<close>
  list, without repetition, the tasks called and the tasks returned.
\<close>

definition inv_book :: "'t list \<Rightarrow> ('s, 'x, 'r) runner \<Rightarrow> bool" where
  "inv_book items s =
     (index s \<le> length items
      \<and> distinct (unsettled s)
      \<and> set (unsettled s) \<union> dom (promises s) = {0..<index s}
      \<and> set (unsettled s) \<inter> dom (promises s) = {}
      \<and> distinct (started s)
      \<and> set (started s) = {0..<index s} - set (callq s)
      \<and> distinct (finished s)
      \<and> set (finished s) = fst ` set (returned s) \<union> dom (promises s))"

lemma inv_book_init: "inv_book items (init sh)"
  by (simp add: inv_book_def init_def unsettled_def)

lemma inv_book_loop:
  assumes "inv_book items s"
  shows "inv_book items (loop_step items limit s)"
  using assms unfolding inv_book_def loop_step_def unsettled_def
  by (auto simp: Let_def atLeast0_lessThan_Suc split: option.splits)

lemma inv_book_call:
  assumes "inv_book items s" and "callq s \<noteq> []"
  shows "inv_book items (call_step fn items s)"
proof -
  from assms(2) obtain i rest where c: "callq s = i # rest" by (cases "callq s") auto
  obtain sh r where k: "call fn (items ! i) i (shared s) = (sh, r)" by (cases "call fn (items ! i) i (shared s)")
  show ?thesis
    using assms(1) c k unfolding inv_book_def call_step_def unsettled_def
    by (cases r) (auto simp: Let_def)
qed

lemma inv_book_settle:
  assumes "inv_book items s" and "returned s \<noteq> []"
  shows "inv_book items (settle_step items limit s)"
proof -
  from assms(2) obtain i out rest where c: "returned s = (i, out) # rest" by (cases "returned s") auto
  show ?thesis
    using assms(1) c unfolding inv_book_def settle_step_def unsettled_def
    by (cases out) (auto simp: Let_def)
qed

lemma inv_book_react:
  assumes "inv_book items s"
  shows "inv_book items (react_step s)"
  using assms unfolding inv_book_def react_step_def unsettled_def
  by (auto simp: Let_def split: option.splits settled.splits)

lemma inv_book_wake:
  assumes "inv_book items s"
  shows "inv_book items (wake_step s)"
  using assms unfolding inv_book_def wake_step_def unsettled_def
  by (auto simp: Let_def split: option.splits wake.splits)

lemma inv_book_step:
  assumes "inv_book items s" and "step fn items limit s = Some s'"
  shows "inv_book items s'"
proof -
  have d: "inv_book items (s\<lparr>main := MDone\<rparr>)"
    using assms(1) by (simp add: inv_book_def unsettled_def)
  from assms(2) show ?thesis
    unfolding step_def
    by (auto simp: inv_book_loop inv_book_call inv_book_settle inv_book_react inv_book_wake d assms(1)
        split: if_splits)
qed

lemma inv_book_deliver:
  assumes "inv_book items s"
  shows "inv_book items (deliver fn items ev s)"
proof (cases "waiting s = []")
  case True
  then show ?thesis using assms by (simp add: deliver_def)
next
  case False
  define i where "i = waiting s ! (fst ev mod length (waiting s))"
  from False have i: "i \<in> set (waiting s)" by (simp add: i_def)
  obtain sh out where k: "resume fn (items ! i) i (snd ev) (shared s) = (sh, out)"
    by (cases "resume fn (items ! i) i (snd ev) (shared s)")
  from assms have dw: "distinct (waiting s)" by (simp add: inv_book_def unsettled_def)
  have sr: "set (remove1 i (waiting s)) = set (waiting s) - {i}" using dw by simp
  show ?thesis
    using assms False i k dw sr unfolding inv_book_def deliver_def unsettled_def i_def [symmetric] Let_def
    by (cases out) (auto simp: i_def [symmetric])
qed

text \<open>The test \<open>limit <= items.length\<close> that guards the use of \<open>executing\<close>.\<close>

definition admission_gate :: "'t list \<Rightarrow> jsnumber \<Rightarrow> bool" where
  "admission_gate items limit = num_le_len limit (length items)"

text \<open>
  The array \<open>executing\<close>: where the test holds it has no repetition and holds every task
  not yet settled, and a fulfilled task stays in it only until its reaction runs; where
  the test fails it stays empty and the runner never awaits. While the loop runs no
  settlement is pending; while it awaits a race not yet settled, some task of
  \<open>executing\<close> is still to settle or to react.
\<close>

definition inv_executing :: "'t list \<Rightarrow> jsnumber \<Rightarrow> ('s, 'x, 'r) runner \<Rightarrow> bool" where
  "inv_executing items limit s =
     ((admission_gate items limit \<longrightarrow>
         distinct (executing s) \<and> set (unsettled s) \<subseteq> set (executing s)
         \<and> set (executing s) \<subseteq> {0..<index s}
         \<and> distinct (reactq s) \<and> set (reactq s) \<subseteq> dom (promises s)
         \<and> set (reactq s) \<subseteq> set (executing s)
         \<and> (\<forall>i \<in> set (executing s). is_fulfilled (promises s i) \<longrightarrow> i \<in> set (reactq s)))
      \<and> (\<not> admission_gate items limit \<longrightarrow>
         executing s = [] \<and> reactq s = [] \<and> main s \<noteq> MAwait \<and> woken s = None)
      \<and> (main s = MRun \<longrightarrow> returned s = [] \<and> reactq s = [] \<and> woken s = None)
      \<and> (main s = MAwait \<and> woken s = None \<longrightarrow>
         executing s \<noteq> [] \<and> (\<forall>i \<in> set (executing s). promises s i = None \<or> i \<in> set (reactq s))))"

lemma first_rejected_None:
  "first_rejected p xs = None \<longleftrightarrow> (\<forall>i \<in> set xs. \<forall>x. p i \<noteq> Some (Rejected x))"
  by (induction xs) (auto split: option.splits settled.splits)

lemma is_fulfilled_simps [simp]:
  "is_fulfilled None = False" "is_fulfilled (Some (Fulfilled r)) = True"
  "is_fulfilled (Some (Rejected x)) = False"
  by (simp_all add: is_fulfilled_def)

lemma not_settled_cases:
  "v \<noteq> None \<Longrightarrow> \<not> is_fulfilled v \<Longrightarrow> \<exists>x. v = Some (Rejected x)"
  by (cases v) (auto simp: is_fulfilled_def split: settled.splits)

lemma inv_executing_init: "inv_executing items limit (init sh)"
  by (simp add: inv_executing_def init_def unsettled_def)

lemma inv_executing_loop:
  assumes "inv_executing items limit s" and "inv_book items s" and "main s = MRun"
  shows "inv_executing items limit (loop_step items limit s)"
proof (cases "index s < length items")
  case False
  then show ?thesis using assms(1,3) unfolding inv_executing_def loop_step_def
    by (auto simp: unsettled_def split: option.splits)
next
  case lt: True
  from assms(2) have fresh: "promises s (index s) = None" "index s \<notin> set (unsettled s)"
    unfolding inv_book_def by (auto simp: dom_def)
  show ?thesis
  proof (cases "admission_gate items limit")
    case False
    then show ?thesis using assms(1,3) lt unfolding inv_executing_def loop_step_def admission_gate_def
      by (auto simp: unsettled_def Let_def)
  next
    case g: True
    from assms(1) g assms(3) have
      a: "distinct (executing s)" "set (unsettled s) \<subseteq> set (executing s)"
         "set (executing s) \<subseteq> {0..<index s}" 
         "\<forall>i \<in> set (executing s). is_fulfilled (promises s i) \<longrightarrow> i \<in> set (reactq s)"
      and e: "returned s = []" "reactq s = []" "woken s = None"
      unfolding inv_executing_def by auto
    have ni: "index s \<notin> set (executing s)" using a(3) by auto
    have us: "set (unsettled (loop_step items limit s)) = insert (index s) (set (unsettled s))"
      using lt by (auto simp: loop_step_def unsettled_def Let_def)
    have ex: "executing (loop_step items limit s) = executing s @ [index s]"
      using lt g by (auto simp: loop_step_def admission_gate_def Let_def)
    have ix: "index (loop_step items limit s) = index s + 1"
      using lt by (auto simp: loop_step_def Let_def)
    have same: "reactq (loop_step items limit s) = []" "returned (loop_step items limit s) = []"
      "promises (loop_step items limit s) = promises s"
      using lt e by (auto simp: loop_step_def Let_def)
    have mw: "(main (loop_step items limit s) = MRun \<and> woken (loop_step items limit s) = None)
        \<or> (main (loop_step items limit s) = MAwait
            \<and> woken (loop_step items limit s) = map_option WThrow (first_rejected (promises s) (executing s @ [index s])))"
      using lt g e assms(3) by (auto simp: loop_step_def admission_gate_def Let_def)
    have unset: "promises s i = None" if "i \<in> set (executing s @ [index s])"
      "first_rejected (promises s) (executing s @ [index s]) = None" for i
    proof (cases "i = index s")
      case True then show ?thesis using fresh by simp
    next
      case False
      with that(1) have i: "i \<in> set (executing s)" by simp
      with a(4) e(2) have "\<not> is_fulfilled (promises s i)" by auto
      moreover from that have "\<forall>x. promises s i \<noteq> Some (Rejected x)"
        unfolding first_rejected_None by blast
      ultimately show ?thesis using not_settled_cases by blast
    qed
    show ?thesis
      unfolding inv_executing_def us ex ix same
      using g a ni fresh mw unset by (auto simp: e)
  qed
qed

lemma inv_executing_call:
  assumes "inv_executing items limit s" and "main s \<noteq> MRun" and "callq s \<noteq> []"
  shows "inv_executing items limit (call_step fn items s)"
proof -
  from assms(3) obtain i rest where c: "callq s = i # rest" by (cases "callq s") auto
  obtain sh r where k: "call fn (items ! i) i (shared s) = (sh, r)" by (cases "call fn (items ! i) i (shared s)")
  show ?thesis
    using assms(1,2) c k unfolding inv_executing_def call_step_def unsettled_def
    by (cases r) (auto simp: Let_def)
qed

lemma inv_executing_settle:
  assumes "inv_executing items limit s" and "inv_book items s" and "main s \<noteq> MRun" and "returned s \<noteq> []"
  shows "inv_executing items limit (settle_step items limit s)"
proof -
  from assms(4) obtain i out rest where c: "returned s = (i, out) # rest" by (cases "returned s") auto
  from assms(2) c have fresh: "i \<notin> dom (promises s)" "i \<notin> set (callq s)" "i \<notin> set (waiting s)"
    "i \<notin> fst ` set rest"
    unfolding inv_book_def unsettled_def by (auto simp: rev_image_eqI)
  define s' where "s' = settle_step items limit s"
  have f: "returned s' = rest" "promises s' = (promises s)(i \<mapsto> out)"
    "reactq s' = (if admission_gate items limit then reactq s @ [i] else reactq s)"
    "executing s' = executing s" "callq s' = callq s" "waiting s' = waiting s" "index s' = index s"
    "woken s' = woken s" "main s' = MAwait \<longleftrightarrow> main s = MAwait" "main s' \<noteq> MRun"
    using c assms(3) unfolding s'_def settle_step_def admission_gate_def
    by (cases out; auto simp: Let_def)+
  have u: "unsettled s' = callq s @ waiting s @ map fst rest" "unsettled s = callq s @ waiting s @ i # map fst rest"
    using f c by (auto simp: unsettled_def)
  show ?thesis
  proof (cases "admission_gate items limit")
    case False
    with assms(1) f(10) show ?thesis unfolding inv_executing_def s'_def [symmetric] f(1-9) by auto
  next
    case g: True
    from assms(1) g have
      a: "distinct (executing s)" "set (unsettled s) \<subseteq> set (executing s)"
         "set (executing s) \<subseteq> {0..<index s}" "distinct (reactq s)" "set (reactq s) \<subseteq> dom (promises s)"
         "set (reactq s) \<subseteq> set (executing s)"
         "\<forall>i \<in> set (executing s). is_fulfilled (promises s i) \<longrightarrow> i \<in> set (reactq s)"
      and w: "main s = MAwait \<and> woken s = None \<longrightarrow>
         executing s \<noteq> [] \<and> (\<forall>i \<in> set (executing s). promises s i = None \<or> i \<in> set (reactq s))"
      unfolding inv_executing_def by auto
    have ie: "i \<in> set (executing s)" using a(2) u(2) by auto
    have ir: "i \<notin> set (reactq s)" using a(5) fresh(1) by auto
    show ?thesis unfolding inv_executing_def s'_def [symmetric] f(1-9) u(1)
      using g a w ie ir u(2) fresh f(10) by (auto simp: dom_def)
  qed
qed

lemma inv_executing_react:
  assumes "inv_executing items limit s" and "inv_book items s" and "main s \<noteq> MRun" and "reactq s \<noteq> []"
  shows "inv_executing items limit (react_step s)"
proof -
  from assms(4) obtain i rest where c: "reactq s = i # rest" by (cases "reactq s") auto
  from assms(1) c have g: "admission_gate items limit" unfolding inv_executing_def by auto
  from assms(1) g have
    a: "distinct (executing s)" "set (unsettled s) \<subseteq> set (executing s)"
       "set (executing s) \<subseteq> {0..<index s}" "distinct (reactq s)" "set (reactq s) \<subseteq> dom (promises s)"
       "set (reactq s) \<subseteq> set (executing s)"
       "\<forall>i \<in> set (executing s). is_fulfilled (promises s i) \<longrightarrow> i \<in> set (reactq s)"
    and w: "main s = MAwait \<and> woken s = None \<longrightarrow>
         executing s \<noteq> [] \<and> (\<forall>i \<in> set (executing s). promises s i = None \<or> i \<in> set (reactq s))"
    unfolding inv_executing_def by auto
  from a(5) c obtain v where v: "promises s i = Some v" by auto
  from a(6) c have ie: "i \<in> set (executing s)" by auto
  from a(4) c have ir: "i \<notin> set rest" "distinct rest" by auto
  from assms(2) v have iu: "i \<notin> set (unsettled s)" unfolding inv_book_def by (auto simp: dom_def)
  define s' where "s' = react_step s"
  have same: "unsettled s' = unsettled s" "promises s' = promises s" "index s' = index s" "reactq s' = rest"
    "main s' = main s" "returned s' = returned s"
    using c v unfolding s'_def react_step_def unsettled_def by (cases v; simp add: Let_def)+
  show ?thesis
  proof (cases v)
    case (Fulfilled r)
    have ex: "executing s' = remove1 i (executing s)"
      "woken s' = (if main s = MAwait \<and> woken s = None then Some WOk else woken s)"
      using c v Fulfilled ie unfolding s'_def react_step_def splice_out_def by (simp_all add: Let_def)
    show ?thesis unfolding inv_executing_def s'_def [symmetric] same ex
      using g a c ir iu assms(3) by auto
  next
    case (Rejected x)
    have ex: "executing s' = executing s"
      "woken s' = (if main s = MAwait \<and> woken s = None then Some (WThrow x) else woken s)"
      using c v Rejected unfolding s'_def react_step_def by (simp_all add: Let_def)
    have nf: "\<not> is_fulfilled (promises s i)" using v Rejected by simp
    show ?thesis unfolding inv_executing_def s'_def [symmetric] same ex
      using g a c ir iu assms(3) nf by auto
  qed
qed

lemma inv_executing_wake:
  assumes "inv_executing items limit s" and "main s = MAwait" and "returned s = []" and "reactq s = []"
  shows "inv_executing items limit (wake_step s)"
  using assms unfolding inv_executing_def wake_step_def unsettled_def
  by (auto split: option.splits wake.splits)

lemma inv_executing_done:
  assumes "inv_executing items limit s" and "main s = MAll"
  shows "inv_executing items limit (s\<lparr>main := MDone\<rparr>)"
  using assms unfolding inv_executing_def unsettled_def by auto

lemma inv_executing_step:
  assumes "inv_executing items limit s" and "inv_book items s" and "step fn items limit s = Some s'"
  shows "inv_executing items limit s'"
  using assms(3) unfolding step_def
  by (auto simp: inv_executing_loop inv_executing_call inv_executing_settle inv_executing_react inv_executing_wake inv_executing_done
      assms(1,2) split: if_splits)

lemma inv_executing_deliver:
  assumes "inv_executing items limit s" and "inv_book items s" and "main s \<noteq> MRun"
  shows "inv_executing items limit (deliver fn items ev s)"
proof (cases "waiting s = []")
  case True
  then show ?thesis using assms by (simp add: deliver_def)
next
  case False
  define i where "i = waiting s ! (fst ev mod length (waiting s))"
  from False have i: "i \<in> set (waiting s)" by (simp add: i_def)
  obtain sh out where k: "resume fn (items ! i) i (snd ev) (shared s) = (sh, out)"
    by (cases "resume fn (items ! i) i (snd ev) (shared s)")
  from assms(2) have dw: "distinct (waiting s)" by (simp add: inv_book_def unsettled_def)
  have sr: "set (remove1 i (waiting s)) = set (waiting s) - {i}" using dw by simp
  define s' where "s' = deliver fn items ev s"
  have f: "executing s' = executing s" "reactq s' = reactq s" "promises s' = promises s"
    "index s' = index s" "main s' = main s" "woken s' = woken s"
    "set (unsettled s') = set (unsettled s)"
    using False k i sr unfolding s'_def deliver_def i_def [symmetric] unsettled_def
    by (cases out; auto simp: Let_def)+
  show ?thesis using assms(1,3) unfolding inv_executing_def s'_def [symmetric] f by auto
qed

text \<open>
  With an integer limit of at least 1, \<open>executing\<close> never holds more than \<open>limit\<close>
  tasks, and fewer while the loop runs or is about to resume.
\<close>

definition inv_bound :: "'t list \<Rightarrow> jsnumber \<Rightarrow> ('s, 'x, 'r) runner \<Rightarrow> bool" where
  "inv_bound items limit s =
     (\<forall>L. limit = Num L \<and> 1 \<le> L \<and> admission_gate items limit \<longrightarrow>
        int (length (executing s)) \<le> L
        \<and> (main s = MRun \<or> (main s = MAwait \<and> woken s = Some WOk) \<longrightarrow> int (length (executing s)) < L))"

lemma inv_bound_init: "inv_bound items limit (init sh)"
  by (simp add: inv_bound_def init_def)

lemma inv_bound_loop:
  assumes "inv_bound items limit s" and "main s = MRun"
  shows "inv_bound items limit (loop_step items limit s)"
  using assms unfolding inv_bound_def loop_step_def admission_gate_def
  by (auto simp: Let_def len_ge_num_def split: option.splits)

lemma inv_bound_call:
  assumes "inv_bound items limit s"
  shows "inv_bound items limit (call_step fn items s)"
proof -
  obtain sh r where k: "call fn (items ! hd (callq s)) (hd (callq s)) (shared s) = (sh, r)"
    by (cases "call fn (items ! hd (callq s)) (hd (callq s)) (shared s)")
  show ?thesis using assms k unfolding inv_bound_def call_step_def
    by (cases r) (auto simp: Let_def)
qed

lemma inv_bound_settle:
  assumes "inv_bound items limit s" and "main s \<noteq> MRun"
  shows "inv_bound items limit (settle_step items limit s)"
proof -
  obtain i out where k: "hd (returned s) = (i, out)" by (cases "hd (returned s)")
  show ?thesis using assms k unfolding inv_bound_def settle_step_def
    by (cases out) (auto simp: Let_def)
qed

lemma inv_bound_react:
  assumes "inv_bound items limit s" and "inv_executing items limit s" and "main s \<noteq> MRun" and "reactq s \<noteq> []"
  shows "inv_bound items limit (react_step s)"
proof -
  from assms(4) obtain i rest where c: "reactq s = i # rest" by (cases "reactq s") auto
  from assms(2) c have g: "admission_gate items limit" unfolding inv_executing_def by auto
  from assms(2) g c have ie: "i \<in> set (executing s)" unfolding inv_executing_def by auto
  then have len: "length (remove1 i (executing s)) = length (executing s) - 1" "length (executing s) > 0"
    by (auto simp: length_remove1)
  show ?thesis using assms(1,3) c ie len unfolding inv_bound_def react_step_def splice_out_def
    by (auto simp: Let_def split: option.splits settled.splits)
qed

lemma inv_bound_wake:
  assumes "inv_bound items limit s" and "main s = MAwait" and "woken s \<noteq> None"
  shows "inv_bound items limit (wake_step s)"
  using assms unfolding inv_bound_def wake_step_def
  by (auto split: option.splits wake.splits)

lemma inv_bound_step:
  assumes "inv_bound items limit s" and "inv_executing items limit s" and "step fn items limit s = Some s'"
  shows "inv_bound items limit s'"
proof -
  have d: "inv_bound items limit (s\<lparr>main := MDone\<rparr>)" if "main s = MAll"
    using assms(1) that by (simp add: inv_bound_def)
  from assms(3) show ?thesis unfolding step_def
    by (auto simp: inv_bound_loop inv_bound_call inv_bound_settle inv_bound_react inv_bound_wake d
        assms(1,2) split: if_splits)
qed

lemma inv_bound_deliver:
  assumes "inv_bound items limit s"
  shows "inv_bound items limit (deliver fn items ev s)"
proof -
  obtain sh out where k: "resume fn (items ! (waiting s ! (fst ev mod length (waiting s))))
      (waiting s ! (fst ev mod length (waiting s))) (snd ev) (shared s) = (sh, out)"
    by (cases "resume fn (items ! (waiting s ! (fst ev mod length (waiting s))))
      (waiting s ! (fst ev mod length (waiting s))) (snd ev) (shared s)")
  show ?thesis using assms k unfolding inv_bound_def deliver_def by (cases out) (auto simp: Let_def)
qed

lemma all_fulfilled_iff: "all_fulfilled p n \<longleftrightarrow> (\<forall>i < n. is_fulfilled (p i))"
  by (auto simp: all_fulfilled_def list_all_iff)

text \<open>The loop has ended when \<open>Promise.all\<close> is pending, and resolution means all fulfilled.\<close>

definition inv_main :: "'t list \<Rightarrow> ('s, 'x, 'r) runner \<Rightarrow> bool" where
  "inv_main items s =
     ((main s = MAll \<or> main s = MDone \<longrightarrow> index s = length items)
      \<and> (main s = MDone \<longrightarrow> all_fulfilled (promises s) (length items)))"

lemma inv_main_init: "inv_main items (init sh)"
  by (simp add: inv_main_def init_def)

lemma inv_main_loop:
  assumes "inv_main items s" and "inv_book items s" and "main s = MRun"
  shows "inv_main items (loop_step items limit s)"
  using assms unfolding inv_main_def loop_step_def inv_book_def
  by (auto simp: Let_def split: option.splits)

lemma inv_main_call:
  assumes "inv_main items s"
  shows "inv_main items (call_step fn items s)"
proof -
  obtain sh r where k: "call fn (items ! hd (callq s)) (hd (callq s)) (shared s) = (sh, r)"
    by (cases "call fn (items ! hd (callq s)) (hd (callq s)) (shared s)")
  show ?thesis using assms k unfolding inv_main_def call_step_def
    by (cases r) (auto simp: Let_def)
qed

lemma inv_main_settle:
  assumes "inv_main items s" and "inv_book items s" and "returned s \<noteq> []"
  shows "inv_main items (settle_step items limit s)"
proof -
  from assms(3) obtain i out rest where c: "returned s = (i, out) # rest" by (cases "returned s") auto
  from assms(2) c have fresh: "promises s i = None" "i < index s"
    unfolding inv_book_def unsettled_def by (auto simp: dom_def)
  have nd: "main s \<noteq> MDone"
  proof
    assume "main s = MDone"
    with assms(1) fresh(2) have "is_fulfilled (promises s i)"
      unfolding inv_main_def all_fulfilled_iff by auto
    with fresh(1) show False by simp
  qed
  show ?thesis using assms(1) c nd unfolding inv_main_def settle_step_def
    by (cases out) (auto simp: Let_def)
qed

lemma inv_main_react:
  assumes "inv_main items s"
  shows "inv_main items (react_step s)"
  using assms unfolding inv_main_def react_step_def
  by (auto simp: Let_def split: option.splits settled.splits)

lemma inv_main_wake:
  assumes "inv_main items s" and "main s = MAwait"
  shows "inv_main items (wake_step s)"
  using assms unfolding inv_main_def wake_step_def
  by (auto split: option.splits wake.splits)

lemma inv_main_step:
  assumes "inv_main items s" and "inv_book items s" and "step fn items limit s = Some s'"
  shows "inv_main items s'"
proof -
  have d: "inv_main items (s\<lparr>main := MDone\<rparr>)"
    if "main s = MAll" "all_fulfilled (promises s) (length items)"
    using assms(1) that by (simp add: inv_main_def)
  from assms(3) show ?thesis unfolding step_def
    by (auto simp: inv_main_loop inv_main_call inv_main_settle inv_main_react inv_main_wake d
        assms(1,2) split: if_splits)
qed

lemma inv_main_deliver:
  assumes "inv_main items s"
  shows "inv_main items (deliver fn items ev s)"
proof -
  obtain sh out where k: "resume fn (items ! (waiting s ! (fst ev mod length (waiting s))))
      (waiting s ! (fst ev mod length (waiting s))) (snd ev) (shared s) = (sh, out)"
    by (cases "resume fn (items ! (waiting s ! (fst ev mod length (waiting s))))
      (waiting s ! (fst ev mod length (waiting s))) (snd ev) (shared s)")
  show ?thesis using assms k unfolding inv_main_def deliver_def by (cases out) (auto simp: Let_def)
qed

definition inv :: "'t list \<Rightarrow> jsnumber \<Rightarrow> ('s, 'x, 'r) runner \<Rightarrow> bool" where
  "inv items limit s =
     (inv_book items s \<and> inv_executing items limit s \<and> inv_bound items limit s \<and> inv_main items s)"

lemma inv_init: "inv items limit (init sh)"
  by (simp add: inv_def inv_book_init inv_executing_init inv_bound_init inv_main_init)

lemma inv_step:
  assumes "inv items limit s" and "step fn items limit s = Some s'"
  shows "inv items limit s'"
  using assms unfolding inv_def
  by (auto intro: inv_book_step inv_executing_step inv_bound_step inv_main_step)

lemma step_None_main: "step fn items limit s = None \<Longrightarrow> main s \<noteq> MRun"
  by (auto simp: step_def split: if_splits)

lemma inv_deliver:
  assumes "inv items limit s" and "step fn items limit s = None"
  shows "inv items limit (deliver fn items ev s)"
  using assms step_None_main [OF assms(2)] unfolding inv_def
  by (auto intro: inv_book_deliver inv_executing_deliver inv_bound_deliver inv_main_deliver)

lemma reach_inv:
  assumes "reach fn items limit sh s"
  shows "inv items limit s"
  using assms
proof (induction rule: reach.induct)
  case reach_init
  show ?case by (rule inv_init)
next
  case (reach_step s s')
  then show ?case by (auto intro: inv_step)
next
  case (reach_event s ev)
  then show ?case by (auto intro: inv_deliver)
qed

section \<open>The bound on the tasks in flight\<close>

lemma inflight_unsettled:
  assumes "inv_book items s"
  shows "length (callq s) + length (inflight s) = length (unsettled s)"
proof -
  from assms have d: "distinct (unsettled s)" "distinct (started s)"
    and st: "set (started s) = {0..<index s} - set (callq s)"
    and u: "set (unsettled s) \<union> dom (promises s) = {0..<index s}"
       "set (unsettled s) \<inter> dom (promises s) = {}"
    unfolding inv_book_def by auto
  have di: "distinct (inflight s)" using d(2) by (simp add: inflight_def)
  have si: "set (inflight s) = set (started s) - dom (promises s)"
    by (auto simp: inflight_def dom_def)
  have dc: "distinct (callq s)" using d(1) by (simp add: unsettled_def)
  have disj: "set (callq s) \<inter> set (inflight s) = {}" using si st by auto
  have "set (callq s @ inflight s) = set (unsettled s)"
    using si st u by (auto simp: unsettled_def)
  moreover have "distinct (callq s @ inflight s)" using dc di disj by simp
  ultimately have "length (callq s @ inflight s) = length (unsettled s)"
    using d(1) by (metis distinct_card)
  then show ?thesis by simp
qed

lemma unsettled_le_index:
  assumes "inv_book items s"
  shows "length (unsettled s) \<le> index s"
proof -
  from assms have d: "distinct (unsettled s)" and u: "set (unsettled s) \<subseteq> {0..<index s}"
    unfolding inv_book_def by auto
  have "length (unsettled s) = card (set (unsettled s))" using d by (simp add: distinct_card)
  also have "\<dots> \<le> card {0..<index s}" using u by (intro card_mono) auto
  finally show ?thesis by simp
qed

lemma unsettled_le_executing:
  assumes "inv_book items s" and "inv_executing items limit s" and "admission_gate items limit"
  shows "length (unsettled s) \<le> length (executing s)"
proof -
  from assms have d: "distinct (unsettled s)" and u: "set (unsettled s) \<subseteq> set (executing s)"
    unfolding inv_book_def inv_executing_def by auto
  have "length (unsettled s) = card (set (unsettled s))" using d by (simp add: distinct_card)
  also have "\<dots> \<le> card (set (executing s))" using u by (intro card_mono) auto
  also have "\<dots> \<le> length (executing s)" by (rule card_length)
  finally show ?thesis .
qed

text \<open>
  Claim C1: with a limit \<open>L \<ge> 1\<close>, in every state of every run (any items, any task
  function, any order of the external events) at most \<open>L\<close> tasks are in flight; and
  whenever the loop is about to admit the next task, the tasks admitted and not yet settled
  are fewer than \<open>L\<close>: with \<open>L\<close> of them it is suspended at the \<open>await\<close>.
\<close>

theorem inflight_bounded:
  assumes "reach fn items (Num L) sh s" and "1 \<le> L"
  shows "int (length (inflight s)) \<le> L
         \<and> (main s = MRun \<and> index s < length items
              \<longrightarrow> int (length (callq s) + length (inflight s)) < L)"
proof -
  from reach_inv [OF assms(1)] have b: "inv_book items s" and g: "inv_executing items (Num L) s"
    and bd: "inv_bound items (Num L) s"
    unfolding inv_def by auto
  have eq: "length (callq s) + length (inflight s) = length (unsettled s)"
    by (rule inflight_unsettled [OF b])
  show ?thesis
  proof (cases "admission_gate items (Num L)")
    case True
    have le: "length (unsettled s) \<le> length (executing s)"
      by (rule unsettled_le_executing [OF b g True])
    from bd True assms(2) have
      "int (length (executing s)) \<le> L"
      "main s = MRun \<longrightarrow> int (length (executing s)) < L"
      unfolding inv_bound_def by auto
    with le eq show ?thesis by auto
  next
    case False
    then have big: "int (length items) < L" by (simp add: admission_gate_def num_le_len_def)
    have "length (unsettled s) \<le> index s" by (rule unsettled_le_index [OF b])
    moreover from b have "index s \<le> length items" unfolding inv_book_def by simp
    ultimately show ?thesis using big eq by auto
  qed
qed

lemma drain_idle: "step fn items limit (drain fn items limit s) = None"
proof (induction fn items limit s rule: drain.induct)
  case (1 fn items limit s)
  show ?case
  proof (cases "step fn items limit s")
    case None
    then show ?thesis by (subst drain.simps) simp
  next
    case (Some s')
    with 1 show ?thesis by (subst drain.simps) simp
  qed
qed

lemma drain_preserves:
  assumes "P s" and "\<And>s s'. P s \<Longrightarrow> step fn items limit s = Some s' \<Longrightarrow> P s'"
  shows "P (drain fn items limit s)"
  using assms
proof (induction fn items limit s rule: drain.induct)
  case (1 fn items limit s)
  show ?case
  proof (cases "step fn items limit s")
    case None
    with "1.prems"(1) show ?thesis by (subst drain.simps) simp
  next
    case (Some s')
    have p: "P s'" using "1.prems" Some by blast
    have e: "drain fn items limit s = drain fn items limit s'"
      using Some by (subst drain.simps) simp
    show ?thesis unfolding e by (rule "1.IH" [OF Some p "1.prems"(2)])
  qed
qed

lemma drain_of_idle: "step fn items limit s = None \<Longrightarrow> drain fn items limit s = s"
  by (subst drain.simps) simp

lemma reach_drain:
  assumes "reach fn items limit sh s"
  shows "reach fn items limit sh (drain fn items limit s)"
  using assms by (rule drain_preserves) (rule reach_step)

lemma reach_foldl:
  assumes "reach fn items limit sh s" and "step fn items limit s = None"
  shows "reach fn items limit sh (foldl (\<lambda>s ev. drain fn items limit (deliver fn items ev s)) s sched)
    \<and> step fn items limit (foldl (\<lambda>s ev. drain fn items limit (deliver fn items ev s)) s sched) = None"
  using assms
proof (induction sched arbitrary: s)
  case Nil
  then show ?case by simp
next
  case (Cons ev sched)
  have r: "reach fn items limit sh (drain fn items limit (deliver fn items ev s))"
    by (intro reach_drain reach_event Cons.prems)
  have i: "step fn items limit (drain fn items limit (deliver fn items ev s)) = None"
    by (rule drain_idle)
  from Cons.IH [OF r i] show ?case by simp
qed

lemma reach_run: "reach fn items limit sh (runWithConcurrencyLimit fn items limit sh sched)"
  unfolding runWithConcurrencyLimit_def
  by (rule conjunct1 [OF reach_foldl [OF reach_drain [OF reach_init] drain_idle]])

lemma run_idle: "step fn items limit (runWithConcurrencyLimit fn items limit sh sched) = None"
  unfolding runWithConcurrencyLimit_def
  by (rule conjunct2 [OF reach_foldl [OF reach_drain [OF reach_init] drain_idle]])

text \<open>A task function whose promise is never rejected, and what that keeps true of a run.\<close>

definition never_rejects :: "('t, 's, 'e, 'x, 'r) task \<Rightarrow> bool" where
  "never_rejects fn =
     ((\<forall>t i sh x. snd (call fn t i sh) \<noteq> Some (Rejected x))
      \<and> (\<forall>t i e sh x. snd (resume fn t i e sh) \<noteq> Some (Rejected x)))"

text \<open>A task function that waits for one event only: resumed, it returns.\<close>

definition one_event :: "('t, 's, 'e, 'x, 'r) task \<Rightarrow> bool" where
  "one_event fn = (\<forall>t i e sh. snd (resume fn t i e sh) \<noteq> None)"

definition inv_ok :: "('s, 'x, 'r) runner \<Rightarrow> bool" where
  "inv_ok s =
     ((\<forall>i x. promises s i \<noteq> Some (Rejected x))
      \<and> (\<forall>i x. (i, Rejected x) \<notin> set (returned s))
      \<and> (\<forall>x. main s \<noteq> MFailed x)
      \<and> (\<forall>x. woken s \<noteq> Some (WThrow x)))"

lemma inv_ok_init: "inv_ok (init sh)"
  by (simp add: inv_ok_def init_def)

lemma inv_ok_loop:
  assumes "inv_ok s"
  shows "inv_ok (loop_step items limit s)"
proof -
  from assms have "first_rejected (promises s) xs = None" for xs
    unfolding first_rejected_None inv_ok_def by auto
  then show ?thesis using assms unfolding inv_ok_def loop_step_def
    by (auto simp: Let_def)
qed

lemma inv_ok_call:
  assumes "inv_ok s" and "never_rejects fn"
  shows "inv_ok (call_step fn items s)"
proof -
  obtain sh r where k: "call fn (items ! hd (callq s)) (hd (callq s)) (shared s) = (sh, r)"
    by (cases "call fn (items ! hd (callq s)) (hd (callq s)) (shared s)")
  from assms(2) k have "r \<noteq> Some (Rejected x)" for x
    unfolding never_rejects_def by (metis snd_conv)
  then show ?thesis using assms(1) k unfolding inv_ok_def call_step_def
    by (cases r) (auto simp: Let_def)
qed

lemma inv_ok_settle:
  assumes "inv_ok s" and "returned s \<noteq> []"
  shows "inv_ok (settle_step items limit s)"
proof -
  from assms(2) obtain i out rest where c: "returned s = (i, out) # rest" by (cases "returned s") auto
  with assms(1) obtain r where r: "out = Fulfilled r" unfolding inv_ok_def by (cases out) auto
  show ?thesis using assms(1) c r unfolding inv_ok_def settle_step_def
    by (auto simp: Let_def)
qed

lemma inv_ok_react:
  assumes "inv_ok s"
  shows "inv_ok (react_step s)"
  using assms unfolding inv_ok_def react_step_def
  by (auto simp: Let_def split: option.splits settled.splits)

lemma inv_ok_wake:
  assumes "inv_ok s"
  shows "inv_ok (wake_step s)"
  using assms unfolding inv_ok_def wake_step_def
  by (auto split: option.splits wake.splits)

lemma inv_ok_step:
  assumes "inv_ok s" and "never_rejects fn" and "step fn items limit s = Some s'"
  shows "inv_ok s'"
proof -
  have d: "inv_ok (s\<lparr>main := MDone\<rparr>)" using assms(1) by (simp add: inv_ok_def)
  from assms(3) show ?thesis unfolding step_def
    by (auto simp: inv_ok_loop inv_ok_call inv_ok_settle inv_ok_react inv_ok_wake d
        assms(1,2) split: if_splits)
qed

lemma inv_ok_deliver:
  assumes "inv_ok s" and "never_rejects fn"
  shows "inv_ok (deliver fn items ev s)"
proof -
  obtain sh out where k: "resume fn (items ! (waiting s ! (fst ev mod length (waiting s))))
      (waiting s ! (fst ev mod length (waiting s))) (snd ev) (shared s) = (sh, out)"
    by (cases "resume fn (items ! (waiting s ! (fst ev mod length (waiting s))))
      (waiting s ! (fst ev mod length (waiting s))) (snd ev) (shared s)")
  from assms(2) k have "out \<noteq> Some (Rejected x)" for x
    unfolding never_rejects_def by (metis snd_conv)
  then show ?thesis using assms(1) k unfolding inv_ok_def deliver_def
    by (cases out) (auto simp: Let_def)
qed

lemma reach_inv_ok:
  assumes "reach fn items limit sh s" and "never_rejects fn"
  shows "inv_ok s"
  using assms(1)
proof (induction rule: reach.induct)
  case reach_init
  show ?case by (rule inv_ok_init)
next
  case (reach_step s s')
  then show ?case using assms(2) by (auto intro: inv_ok_step)
next
  case (reach_event s ev)
  then show ?case using assms(2) by (auto intro: inv_ok_deliver)
qed

lemma idle_done:
  assumes i: "inv items limit s" and ok: "inv_ok s" and idle: "step fn items limit s = None"
    and w: "waiting s = []"
  shows "main s = MDone"
proof -
  from idle have q: "main s \<noteq> MRun" "callq s = []" "returned s = []" "reactq s = []"
    and aw: "\<not> (main s = MAwait \<and> woken s \<noteq> None)"
    and al: "\<not> (main s = MAll \<and> all_fulfilled (promises s) (length items))"
    by (auto simp: step_def split: if_splits)
  from q w have u: "unsettled s = []" by (simp add: unsettled_def)
  from i have b: "inv_book items s" and g: "inv_executing items limit s" and m: "inv_main items s"
    unfolding inv_def by auto
  from b u have dom: "dom (promises s) = {0..<index s}" unfolding inv_book_def by simp
  show ?thesis
  proof (cases "main s")
    case MRun
    with q show ?thesis by simp
  next
    case MAwait
    with aw have "woken s = None" by simp
    with g MAwait q(4) obtain j where "j \<in> set (executing s)" "promises s j = None"
      unfolding inv_executing_def by (cases "executing s") auto
    moreover from g MAwait have "admission_gate items limit" unfolding inv_executing_def by auto
    ultimately have "j < index s" "j \<notin> dom (promises s)" using g unfolding inv_executing_def by auto
    with dom show ?thesis by simp
  next
    case MAll
    with m have "index s = length items" unfolding inv_main_def by simp
    with dom have "\<forall>i < length items. promises s i \<noteq> None" by (auto simp: dom_def)
    moreover from ok have "\<forall>i x. promises s i \<noteq> Some (Rejected x)" unfolding inv_ok_def by simp
    ultimately have "all_fulfilled (promises s) (length items)"
      unfolding all_fulfilled_iff using not_settled_cases by blast
    with al MAll show ?thesis by simp
  next
    case MDone
    then show ?thesis .
  next
    case (MFailed x)
    with ok show ?thesis unfolding inv_ok_def by simp
  qed
qed

lemma is_fulfilled_not_None: "is_fulfilled v \<Longrightarrow> v \<noteq> None"
  by (cases v) simp_all

lemma done_settled:
  assumes i: "inv items limit s" and d: "main s = MDone"
  shows "unsettled s = []" and "dom (promises s) = {0..<length items}" and "index s = length items"
proof -
  from i have b: "inv_book items s" and m: "inv_main items s" unfolding inv_def by auto
  from m d show ix: "index s = length items" unfolding inv_main_def by simp
  from b have u1: "set (unsettled s) \<union> dom (promises s) = {0..<index s}"
    and u2: "set (unsettled s) \<inter> dom (promises s) = {}"
    unfolding inv_book_def by simp_all
  from m d have af: "\<forall>i < length items. is_fulfilled (promises s i)"
    unfolding inv_main_def all_fulfilled_iff by simp
  have nn: "promises s i \<noteq> None" if "i < length items" for i
  proof -
    from af that have "is_fulfilled (promises s i)" by simp
    then show ?thesis by (rule is_fulfilled_not_None)
  qed
  have "{0..<length items} \<subseteq> dom (promises s)"
  proof
    fix i assume "i \<in> {0..<length items}"
    then have "promises s i \<noteq> None" using nn by simp
    then show "i \<in> dom (promises s)" by (simp add: dom_def)
  qed
  moreover from u1 have "dom (promises s) \<subseteq> {0..<index s}" by blast
  then have "dom (promises s) \<subseteq> {0..<length items}" unfolding ix .
  ultimately show dm: "dom (promises s) = {0..<length items}" by blast
  from u1 have "set (unsettled s) \<subseteq> {0..<index s}" by blast
  then have "set (unsettled s) \<subseteq> dom (promises s)" unfolding ix dm .
  then have "set (unsettled s) \<inter> dom (promises s) = set (unsettled s)" by (rule Int_absorb2)
  with u2 have "set (unsettled s) = {}" by simp
  then show "unsettled s = []" by simp
qed

lemma idle_stable:
  assumes "step fn items limit s = None" and "waiting s = []"
  shows "foldl (\<lambda>s ev. drain fn items limit (deliver fn items ev s)) s sched = s"
proof (induction sched)
  case Nil
  show ?case by simp
next
  case (Cons ev sched)
  have "deliver fn items ev s = s" using assms(2) by (simp add: deliver_def)
  with Cons drain_of_idle [OF assms(1)] show ?case by simp
qed

lemma step_finished:
  assumes "step fn items limit s = Some s'"
  shows "length (finished s) \<le> length (finished s')"
proof -
  obtain sh r where k: "call fn (items ! hd (callq s)) (hd (callq s)) (shared s) = (sh, r)"
    by (cases "call fn (items ! hd (callq s)) (hd (callq s)) (shared s)")
  obtain i out where h: "hd (returned s) = (i, out)" by (cases "hd (returned s)")
  have "length (finished s) \<le> length (finished (loop_step items limit s))"
    by (auto simp: loop_step_def Let_def split: option.splits)
  moreover have "length (finished s) \<le> length (finished (call_step fn items s))"
    using k by (cases r) (auto simp: call_step_def Let_def)
  moreover have "length (finished s) \<le> length (finished (settle_step items limit s))"
    using h by (cases out) (auto simp: settle_step_def Let_def)
  moreover have "length (finished s) \<le> length (finished (react_step s))"
    by (auto simp: react_step_def Let_def split: option.splits settled.splits)
  moreover have "length (finished s) \<le> length (finished (wake_step s))"
    by (auto simp: wake_step_def split: option.splits wake.splits)
  ultimately show ?thesis using assms unfolding step_def by (auto split: if_splits)
qed

lemma drain_finished: "length (finished s) \<le> length (finished (drain fn items limit s))"
proof -
  have "length (finished s) \<le> length (finished s)" by simp
  then show ?thesis
  proof (rule drain_preserves [where P = "\<lambda>x. length (finished s) \<le> length (finished x)"])
    fix a a' :: "('a, 'b, 'c) runner"
    assume "length (finished s) \<le> length (finished a)" and "step fn items limit a = Some a'"
    then show "length (finished s) \<le> length (finished a')"
      using step_finished [of fn items limit a a'] by linarith
  qed
qed

lemma deliver_finished:
  assumes "waiting s \<noteq> []" and "one_event fn"
  shows "length (finished (deliver fn items ev s)) = length (finished s) + 1"
proof -
  obtain sh out where k: "resume fn (items ! (waiting s ! (fst ev mod length (waiting s))))
      (waiting s ! (fst ev mod length (waiting s))) (snd ev) (shared s) = (sh, out)"
    by (cases "resume fn (items ! (waiting s ! (fst ev mod length (waiting s))))
      (waiting s ! (fst ev mod length (waiting s))) (snd ev) (shared s)")
  from assms(2) k obtain v where "out = Some v"
    unfolding one_event_def by (metis snd_conv not_None_eq)
  then show ?thesis using assms(1) k unfolding deliver_def by (simp add: Let_def)
qed

lemma run_progress:
  assumes "reach fn items limit sh s" and "step fn items limit s = None" and "never_rejects fn"
    and "one_event fn"
  shows "main (foldl (\<lambda>s ev. drain fn items limit (deliver fn items ev s)) s sched) = MDone
    \<or> length (finished s) + length sched
        \<le> length (finished (foldl (\<lambda>s ev. drain fn items limit (deliver fn items ev s)) s sched))"
  using assms(1,2)
proof (induction sched arbitrary: s)
  case Nil
  show ?case by simp
next
  case (Cons ev sched)
  show ?case
  proof (cases "waiting s = []")
    case True
    have "main s = MDone"
      by (rule idle_done [OF reach_inv [OF Cons.prems(1)] reach_inv_ok [OF Cons.prems(1) assms(3)]
            Cons.prems(2) True])
    have e: "foldl (\<lambda>s ev. drain fn items limit (deliver fn items ev s)) s (ev # sched) = s"
      by (rule idle_stable [OF Cons.prems(2) True])
    show ?thesis unfolding e by (rule disjI1) fact
  next
    case False
    let ?s1 = "drain fn items limit (deliver fn items ev s)"
    have r: "reach fn items limit sh ?s1" by (intro reach_drain reach_event Cons.prems)
    have i: "step fn items limit ?s1 = None" by (rule drain_idle)
    have "length (finished s) + 1 \<le> length (finished ?s1)"
      using deliver_finished [OF False assms(4), of items ev]
        drain_finished [of "deliver fn items ev s" fn items limit]
      by simp
    with Cons.IH [OF r i] show ?thesis by auto
  qed
qed

lemma finished_all:
  assumes i: "inv items limit s" and ok: "inv_ok s" and idle: "step fn items limit s = None"
    and n: "length items \<le> length (finished s)"
  shows "main s = MDone"
proof -
  from i have b: "inv_book items s" unfolding inv_def by simp
  from idle have q: "returned s = []" by (auto simp: step_def split: if_splits)
  from b have d: "distinct (finished s)" and f: "set (finished s) = fst ` set (returned s) \<union> dom (promises s)"
    and ix: "index s \<le> length items"
    and u: "set (unsettled s) \<union> dom (promises s) = {0..<index s}"
       "set (unsettled s) \<inter> dom (promises s) = {}"
    unfolding inv_book_def by auto
  from f q have fd: "set (finished s) = dom (promises s)" by simp
  with u have sub: "set (finished s) \<subseteq> {0..<index s}" by auto
  have "length (finished s) = card (set (finished s))" using d by (simp add: distinct_card)
  also have "\<dots> \<le> card {0..<index s}" using sub by (intro card_mono) auto
  finally have le: "length (finished s) \<le> index s" by simp
  with n ix have eq: "index s = length items" "card (set (finished s)) = card {0..<index s}"
    using d by (auto simp: distinct_card)
  from sub eq(2) have "set (finished s) = {0..<index s}" by (intro card_subset_eq) auto
  with fd have "dom (promises s) = {0..<index s}" by simp
  with u(1) have "set (unsettled s) \<subseteq> dom (promises s)" by auto
  then have "set (unsettled s) \<inter> dom (promises s) = set (unsettled s)" by (rule Int_absorb2)
  with u(2) have "set (unsettled s) = {}" by simp
  then have "waiting s = []" by (simp add: unsettled_def)
  then show ?thesis by (rule idle_done [OF i ok idle])
qed

lemma run_completes:
  assumes "never_rejects fn" and "one_event fn" and "length items \<le> length sched"
  shows "main (runWithConcurrencyLimit fn items limit sh sched) = MDone"
proof -
  let ?s0 = "drain fn items limit (init sh)"
  let ?f = "runWithConcurrencyLimit fn items limit sh sched"
  have r0: "reach fn items limit sh ?s0" by (rule reach_drain [OF reach_init])
  have i0: "step fn items limit ?s0 = None" by (rule drain_idle)
  have "main ?f = MDone \<or> length (finished ?s0) + length sched \<le> length (finished ?f)"
    unfolding runWithConcurrencyLimit_def by (rule run_progress [OF r0 i0 assms(1,2)])
  then show ?thesis
  proof
    assume "main ?f = MDone" then show ?thesis .
  next
    assume "length (finished ?s0) + length sched \<le> length (finished ?f)"
    with assms(3) have n: "length items \<le> length (finished ?f)" by linarith
    show ?thesis
      by (rule finished_all [OF reach_inv [OF reach_run] reach_inv_ok [OF reach_run assms(1)] run_idle n])
  qed
qed

lemma done_started:
  assumes i: "inv items limit s" and d: "main s = MDone"
  shows "distinct (started s)" and "set (started s) = {0..<length items}"
    and "distinct (finished s)" and "set (finished s) = {0..<length items}"
proof -
  from i have b: "inv_book items s" unfolding inv_def by simp
  from done_settled [OF i d] have u: "callq s = []" "returned s = []"
    and dom: "dom (promises s) = {0..<length items}" and ix: "index s = length items"
    by (simp_all add: unsettled_def)
  from b have "distinct (started s)" "set (started s) = {0..<index s} - set (callq s)"
    "distinct (finished s)" "set (finished s) = fst ` set (returned s) \<union> dom (promises s)"
    unfolding inv_book_def by simp_all
  then show "distinct (started s)" "set (started s) = {0..<length items}"
    "distinct (finished s)" "set (finished s) = {0..<length items}"
    by (simp_all add: u dom ix)
qed

theorem inflight_bounded_witness:
  "int (length (inflight (runWithConcurrencyLimit (deleteTask ''pw'' 5) [''a'', ''b'', ''c'', ''d'', ''e'']
      (Num 3) (initialState 5) [(1, ExecOk [])]))) \<le> 3"
  using inflight_bounded [OF reach_run, of 3 "deleteTask ''pw'' 5" "[''a'', ''b'', ''c'', ''d'', ''e'']"
      "initialState 5" "[(1, ExecOk [])]"]
  by simp

section \<open>The order of the starts and the limits outside the range\<close>

text \<open>The tasks are called in the order of the items.\<close>

definition inv_order :: "('s, 'x, 'r) runner \<Rightarrow> bool" where
  "inv_order s = (started s @ callq s = [0..<index s])"

lemma inv_order_step:
  assumes "inv_order s" and "step fn items limit s = Some s'"
  shows "inv_order s'"
proof -
  obtain sh r where k: "call fn (items ! hd (callq s)) (hd (callq s)) (shared s) = (sh, r)"
    by (cases "call fn (items ! hd (callq s)) (hd (callq s)) (shared s)")
  obtain i out where h: "hd (returned s) = (i, out)" by (cases "hd (returned s)")
  have "inv_order (loop_step items limit s)"
    using assms(1) by (auto simp: inv_order_def loop_step_def Let_def split: option.splits)
  moreover have "inv_order (call_step fn items s)" if "callq s \<noteq> []"
    using assms(1) k that by (cases r; cases "callq s") (auto simp: inv_order_def call_step_def Let_def)
  moreover have "inv_order (settle_step items limit s)"
    using assms(1) h by (cases out) (auto simp: inv_order_def settle_step_def Let_def)
  moreover have "inv_order (react_step s)"
    using assms(1) by (auto simp: inv_order_def react_step_def Let_def split: option.splits settled.splits)
  moreover have "inv_order (wake_step s)"
    using assms(1) by (auto simp: inv_order_def wake_step_def split: option.splits wake.splits)
  moreover have "inv_order (s\<lparr>main := MDone\<rparr>)"
    using assms(1) by (simp add: inv_order_def)
  ultimately show ?thesis using assms(2) unfolding step_def by (auto split: if_splits)
qed

lemma inv_order_deliver:
  assumes "inv_order s"
  shows "inv_order (deliver fn items ev s)"
proof -
  obtain sh out where k: "resume fn (items ! (waiting s ! (fst ev mod length (waiting s))))
      (waiting s ! (fst ev mod length (waiting s))) (snd ev) (shared s) = (sh, out)"
    by (cases "resume fn (items ! (waiting s ! (fst ev mod length (waiting s))))
      (waiting s ! (fst ev mod length (waiting s))) (snd ev) (shared s)")
  show ?thesis using assms k unfolding inv_order_def deliver_def by (cases out) (auto simp: Let_def)
qed

lemma reach_order:
  assumes "reach fn items limit sh s"
  shows "inv_order s"
  using assms
proof (induction rule: reach.induct)
  case reach_init
  show ?case by (simp add: inv_order_def init_def)
next
  case (reach_step s s')
  then show ?case by (auto intro: inv_order_step)
next
  case (reach_event s ev)
  then show ?case by (auto intro: inv_order_deliver)
qed

lemma done_started_order:
  assumes "reach fn items limit sh s" and "main s = MDone"
  shows "started s = [0..<length items]"
proof -
  from done_settled [OF reach_inv [OF assms(1)] assms(2)]
  have "callq s = []" "index s = length items" by (simp_all add: unsettled_def)
  with reach_order [OF assms(1)] show ?thesis by (simp add: inv_order_def)
qed

lemma gate_off_start:
  assumes nr: "never_rejects fn" and off: "\<not> num_le_len limit (length items)"
  shows "started (runWithConcurrencyLimit fn items limit sh []) = [0..<length items]"
    and "executing (runWithConcurrencyLimit fn items limit sh []) = []"
proof -
  let ?s = "runWithConcurrencyLimit fn items limit sh []"
  have r: "reach fn items limit sh ?s" by (rule reach_run)
  have idle: "step fn items limit ?s = None" by (rule run_idle)
  from reach_inv [OF r] have g: "inv_executing items limit ?s" and m: "inv_main items ?s"
    unfolding inv_def by auto
  from g off show ex: "executing ?s = []" unfolding inv_executing_def admission_gate_def by simp
  from g off have na: "main ?s \<noteq> MAwait" unfolding inv_executing_def admission_gate_def by simp
  from idle have q: "main ?s \<noteq> MRun" "callq ?s = []" by (auto simp: step_def split: if_splits)
  from reach_inv_ok [OF r nr] have nf: "\<forall>x. main ?s \<noteq> MFailed x" unfolding inv_ok_def by simp
  from na q(1) nf have "main ?s = MAll \<or> main ?s = MDone" by (cases "main ?s") auto
  with m have "index ?s = length items" unfolding inv_main_def by simp
  with reach_order [OF r] q(2) show "started ?s = [0..<length items]" by (simp add: inv_order_def)
qed

lemma done_all_fulfilled:
  assumes "reach fn items limit sh s" and "main s = MDone"
  shows "all_fulfilled (promises s) (length items)"
  using reach_inv [OF assms(1)] assms(2) unfolding inv_def inv_main_def by simp

text \<open>The shared state of a run is made by the invocations of the task function.\<close>

lemma replay_append:
  "replay fn items (l @ m) sh = replay fn items m (replay fn items l sh)"
  by (induction fn items l sh rule: replay.induct) simp_all

lemma calls_of_append: "calls_of (l @ m) = calls_of l @ calls_of m"
  by (induction l rule: calls_of.induct) simp_all

lemma calls_of_Called: "calls_of (map Called is) = is"
  by (induction "is") simp_all

lemma step_invocation:
  assumes "step fn items limit s = Some s'"
  shows "(shared s' = shared s \<and> started s' = started s)
         \<or> (shared s' = fst (call fn (items ! hd (callq s)) (hd (callq s)) (shared s))
              \<and> started s' = started s @ [hd (callq s)])"
proof -
  obtain i out where h: "hd (returned s) = (i, out)" by (cases "hd (returned s)")
  obtain sh r where k: "call fn (items ! hd (callq s)) (hd (callq s)) (shared s) = (sh, r)"
    by (cases "call fn (items ! hd (callq s)) (hd (callq s)) (shared s)")
  have "shared (loop_step items limit s) = shared s \<and> started (loop_step items limit s) = started s"
    by (auto simp: loop_step_def Let_def split: option.splits)
  moreover have "shared (call_step fn items s) = fst (call fn (items ! hd (callq s)) (hd (callq s)) (shared s))
      \<and> started (call_step fn items s) = started s @ [hd (callq s)]"
    using k by (cases r) (auto simp: call_step_def Let_def)
  moreover have "shared (settle_step items limit s) = shared s
      \<and> started (settle_step items limit s) = started s"
    using h by (cases out) (auto simp: settle_step_def Let_def)
  moreover have "shared (react_step s) = shared s \<and> started (react_step s) = started s"
    by (auto simp: react_step_def Let_def split: option.splits settled.splits)
  moreover have "shared (wake_step s) = shared s \<and> started (wake_step s) = started s"
    by (auto simp: wake_step_def split: option.splits wake.splits)
  ultimately show ?thesis using assms unfolding step_def by (auto split: if_splits)
qed

lemma deliver_invocation:
  "started (deliver fn items ev s) = started s
   \<and> (shared (deliver fn items ev s) = shared s
        \<or> shared (deliver fn items ev s)
            = fst (resume fn (items ! (waiting s ! (fst ev mod length (waiting s))))
                    (waiting s ! (fst ev mod length (waiting s))) (snd ev) (shared s)))"
proof -
  obtain sh out where k: "resume fn (items ! (waiting s ! (fst ev mod length (waiting s))))
      (waiting s ! (fst ev mod length (waiting s))) (snd ev) (shared s) = (sh, out)"
    by (cases "resume fn (items ! (waiting s ! (fst ev mod length (waiting s))))
      (waiting s ! (fst ev mod length (waiting s))) (snd ev) (shared s)")
  show ?thesis using k unfolding deliver_def by (cases out) (auto simp: Let_def)
qed

lemma reach_replay:
  assumes "reach fn items limit sh s"
  shows "\<exists>log. shared s = replay fn items log sh \<and> calls_of log = started s"
  using assms
proof (induction rule: reach.induct)
  case reach_init
  have "shared (init sh) = replay fn items [] sh \<and> calls_of ([] :: 'c invocation list) = started (init sh)"
    by (simp add: init_def)
  then show ?case by blast
next
  case (reach_step s s')
  from reach_step.IH obtain log :: "'c invocation list"
    where l: "shared s = replay fn items log sh" "calls_of log = started s" by blast
  from step_invocation [OF reach_step.hyps(2)] show ?case
  proof
    assume "shared s' = shared s \<and> started s' = started s"
    with l show ?thesis by auto
  next
    assume c: "shared s' = fst (call fn (items ! hd (callq s)) (hd (callq s)) (shared s))
       \<and> started s' = started s @ [hd (callq s)]"
    have "shared s' = replay fn items (log @ [Called (hd (callq s))]) sh
        \<and> calls_of (log @ [Called (hd (callq s))]) = started s'"
      using c l by (simp add: replay_append calls_of_append)
    then show ?thesis by blast
  qed
next
  case (reach_event s ev)
  from reach_event.IH obtain log :: "'c invocation list"
    where l: "shared s = replay fn items log sh" "calls_of log = started s" by blast
  let ?i = "waiting s ! (fst ev mod length (waiting s))"
  from deliver_invocation [of fn items ev s]
  have st: "started (deliver fn items ev s) = started s"
    and sh: "shared (deliver fn items ev s) = shared s
        \<or> shared (deliver fn items ev s) = fst (resume fn (items ! ?i) ?i (snd ev) (shared s))"
    by simp_all
  from sh show ?case
  proof
    assume "shared (deliver fn items ev s) = shared s"
    with l st show ?thesis by auto
  next
    assume c: "shared (deliver fn items ev s) = fst (resume fn (items ! ?i) ?i (snd ev) (shared s))"
    have "shared (deliver fn items ev s) = replay fn items (log @ [Resumed ?i (snd ev)]) sh
        \<and> calls_of (log @ [Resumed ?i (snd ev)]) = started (deliver fn items ev s)"
      using c l st by (simp add: replay_append calls_of_append)
    then show ?thesis by blast
  qed
qed

lemma step_first_idle:
  assumes "shared s = replay fn items (map Called (started s)) sh"
    and "step fn items limit s = Some s'"
  shows "shared s' = replay fn items (map Called (started s')) sh"
  using step_invocation [OF assms(2)] assms(1) by (auto simp: replay_append)

lemma first_idle_replay:
  "shared (runWithConcurrencyLimit fn items limit sh [])
     = replay fn items (map Called (started (runWithConcurrencyLimit fn items limit sh []))) sh"
proof -
  have "shared (drain fn items limit (init sh))
      = replay fn items (map Called (started (drain fn items limit (init sh)))) sh"
    by (rule drain_preserves [where P = "\<lambda>s. shared s = replay fn items (map Called (started s)) sh"],
        simp add: init_def, erule (1) step_first_idle)
  then show ?thesis by (simp add: runWithConcurrencyLimit_def)
qed

lemma run_waiting_or_done:
  assumes "never_rejects fn" and "waiting (runWithConcurrencyLimit fn items limit sh sched) = []"
  shows "main (runWithConcurrencyLimit fn items limit sh sched) = MDone"
  by (rule idle_done [OF reach_inv [OF reach_run] reach_inv_ok [OF reach_run assms(1)] run_idle assms(2)])

text \<open>
  Claim C10: for a task function that never rejects, no limit brings the runner to a
  deadlock. With a limit that is \<open>NaN\<close>, \<open>Infinity\<close> or greater than the number of items
  the gate is skipped: at the first idle point, before any external event, \<open>executing\<close>
  is empty and the task function has been called for every item, in the order of the items,
  each call acting on the shared state the one before left. With any limit at all, zero,
  \<open>-0\<close>, negative ones and \<open>-Infinity\<close> included, and after any sequence of external
  events: the shared state is the work of the invocations of the task function, a call for
  each task started; and unless a task is still suspended on its external event the runner
  has resolved, the task function was called for every item in order, and
  every promise is fulfilled. For a task function that waits for one event, one event per
  item is enough for that.
\<close>

theorem limit_outside_range:
  assumes "never_rejects fn"
  shows "(limit = NaN \<or> limit = PosInfinity \<or> (\<exists>l. limit = Num l \<and> int (length items) < l) \<longrightarrow>
            started (runWithConcurrencyLimit fn items limit sh []) = [0..<length items]
            \<and> executing (runWithConcurrencyLimit fn items limit sh []) = []
            \<and> shared (runWithConcurrencyLimit fn items limit sh [])
                = replay fn items (map Called [0..<length items]) sh)
         \<and> (\<exists>log. shared (runWithConcurrencyLimit fn items limit sh sched) = replay fn items log sh
                \<and> calls_of log = started (runWithConcurrencyLimit fn items limit sh sched))
         \<and> (waiting (runWithConcurrencyLimit fn items limit sh sched) = [] \<longrightarrow>
               main (runWithConcurrencyLimit fn items limit sh sched) = MDone
               \<and> started (runWithConcurrencyLimit fn items limit sh sched) = [0..<length items]
               \<and> all_fulfilled (promises (runWithConcurrencyLimit fn items limit sh sched)) (length items))
         \<and> (one_event fn \<and> length items \<le> length sched \<longrightarrow>
               main (runWithConcurrencyLimit fn items limit sh sched) = MDone)"
proof -
  have a: "started (runWithConcurrencyLimit fn items limit sh []) = [0..<length items]
            \<and> executing (runWithConcurrencyLimit fn items limit sh []) = []
            \<and> shared (runWithConcurrencyLimit fn items limit sh [])
                = replay fn items (map Called [0..<length items]) sh"
    if "limit = NaN \<or> limit = PosInfinity \<or> (\<exists>l. limit = Num l \<and> int (length items) < l)"
  proof -
    from that have "\<not> num_le_len limit (length items)" by (auto simp: num_le_len_def)
    from gate_off_start [OF assms this, of sh] first_idle_replay [of fn items limit sh]
    show ?thesis by simp
  qed
  have b: "\<exists>log. shared (runWithConcurrencyLimit fn items limit sh sched) = replay fn items log sh
                \<and> calls_of log = started (runWithConcurrencyLimit fn items limit sh sched)"
    by (rule reach_replay [OF reach_run])
  have c: "main (runWithConcurrencyLimit fn items limit sh sched) = MDone
               \<and> started (runWithConcurrencyLimit fn items limit sh sched) = [0..<length items]
               \<and> all_fulfilled (promises (runWithConcurrencyLimit fn items limit sh sched)) (length items)"
    if "waiting (runWithConcurrencyLimit fn items limit sh sched) = []"
  proof -
    have d: "main (runWithConcurrencyLimit fn items limit sh sched) = MDone"
      by (rule run_waiting_or_done [OF assms that])
    from d done_started_order [OF reach_run d] done_all_fulfilled [OF reach_run d]
    show ?thesis by simp
  qed
  have d: "main (runWithConcurrencyLimit fn items limit sh sched) = MDone"
    if "one_event fn" "length items \<le> length sched"
    by (rule run_completes [OF assms that])
  from a b c d show ?thesis by blast
qed

lemma deleteTask_never_rejects: "never_rejects (deleteTask pw n)"
  by (auto simp: never_rejects_def deleteTask_def task_call_def task_resume_def Let_def
      split: exec_outcome.splits prod.splits)

lemma deleteTask_one_event: "one_event (deleteTask pw n)"
  by (auto simp: one_event_def deleteTask_def task_resume_def Let_def
      split: exec_outcome.splits prod.splits)

theorem limit_outside_range_witness:
  "started (runWithConcurrencyLimit (deleteTask ''pw'' 2) [''a'', ''b''] NaN (initialState 2) []) = [0, 1]
   \<and> trace (shared (runWithConcurrencyLimit (deleteTask ''pw'' 2) [''a'', ''b''] NaN (initialState 2) []))
       = [TStart 0, TSpawn 0 (deleteCommand ''pw'' ''a''), TStart 1, TSpawn 1 (deleteCommand ''pw'' ''b'')]
   \<and> started (runWithConcurrencyLimit (deleteTask ''pw'' 2) [''a'', ''b''] PosInfinity (initialState 2) []) = [0, 1]
   \<and> started (runWithConcurrencyLimit (deleteTask ''pw'' 2) [''a'', ''b''] (Num 7) (initialState 2) []) = [0, 1]
   \<and> main (runWithConcurrencyLimit (deleteTask ''pw'' 2) [''a'', ''b''] (Num 0) (initialState 2) [(0, ExecOk []), (0, ExecOk [])]) = MDone
   \<and> started (runWithConcurrencyLimit (deleteTask ''pw'' 2) [''a'', ''b''] (Num 0) (initialState 2) [(0, ExecOk []), (0, ExecOk [])]) = [0, 1]
   \<and> trace (shared (runWithConcurrencyLimit (deleteTask ''pw'' 2) [''a'', ''b''] (Num 0) (initialState 2) [(0, ExecOk []), (0, ExecOk [])]))
       = [TStart 0, TSpawn 0 (deleteCommand ''pw'' ''a''), TDone 0 (ExecOk []),
          TStart 1, TSpawn 1 (deleteCommand ''pw'' ''b''), TDone 1 (ExecOk [])]
   \<and> main (runWithConcurrencyLimit (deleteTask ''pw'' 2) [''a'', ''b''] (Num (- 3)) (initialState 2) [(0, ExecOk []), (0, ExecOk [])]) = MDone
   \<and> main (runWithConcurrencyLimit (deleteTask ''pw'' 2) [''a'', ''b''] NegInfinity (initialState 2) [(0, ExecOk []), (0, ExecOk [])]) = MDone"
proof -
  have len: "length [''a'', ''b''] = 2" and upt: "[0..<length [''a'', ''b'']] = [0, 1]"
    by (simp_all add: upt_rec)
  have ev: "length [''a'', ''b''] \<le> length [(0 :: nat, ExecOk []), (0, ExecOk [])]" by simp
  have tr: "trace (replay (deleteTask ''pw'' 2) [''a'', ''b''] (map Called [0, 1]) (initialState 2))
      = [TStart 0, TSpawn 0 (deleteCommand ''pw'' ''a''), TStart 1, TSpawn 1 (deleteCommand ''pw'' ''b'')]"
    by code_simp
  have w: "waiting (runWithConcurrencyLimit (deleteTask ''pw'' 2) [''a'', ''b''] (Num 0) (initialState 2) [(0, ExecOk []), (0, ExecOk [])]) = []"
    by code_simp
  have t: "trace (shared (runWithConcurrencyLimit (deleteTask ''pw'' 2) [''a'', ''b''] (Num 0) (initialState 2) [(0, ExecOk []), (0, ExecOk [])]))
       = [TStart 0, TSpawn 0 (deleteCommand ''pw'' ''a''), TDone 0 (ExecOk []),
          TStart 1, TSpawn 1 (deleteCommand ''pw'' ''b''), TDone 1 (ExecOk [])]"
    by code_simp
  from limit_outside_range [OF deleteTask_never_rejects, of NaN "[''a'', ''b'']" "''pw''" 2 "initialState 2" "[]"]
  have a: "started (runWithConcurrencyLimit (deleteTask ''pw'' 2) [''a'', ''b''] NaN (initialState 2) []) = [0, 1]"
    and a2: "shared (runWithConcurrencyLimit (deleteTask ''pw'' 2) [''a'', ''b''] NaN (initialState 2) []) = replay (deleteTask ''pw'' 2) [''a'', ''b''] (map Called [0, 1]) (initialState 2)"
    unfolding upt by blast+
  have a3: "trace (shared (runWithConcurrencyLimit (deleteTask ''pw'' 2) [''a'', ''b''] NaN (initialState 2) []))
       = [TStart 0, TSpawn 0 (deleteCommand ''pw'' ''a''), TStart 1, TSpawn 1 (deleteCommand ''pw'' ''b'')]"
    unfolding a2 by (rule tr)
  from limit_outside_range [OF deleteTask_never_rejects, of PosInfinity "[''a'', ''b'']" "''pw''" 2 "initialState 2" "[]"]
  have b: "started (runWithConcurrencyLimit (deleteTask ''pw'' 2) [''a'', ''b''] PosInfinity (initialState 2) []) = [0, 1]"
    unfolding upt by blast
  have "int (length [''a'', ''b'']) < 7" by simp
  with limit_outside_range [OF deleteTask_never_rejects, of "Num 7" "[''a'', ''b'']" "''pw''" 2 "initialState 2" "[]"]
  have c: "started (runWithConcurrencyLimit (deleteTask ''pw'' 2) [''a'', ''b''] (Num 7) (initialState 2) []) = [0, 1]"
    unfolding upt by blast
  from limit_outside_range [OF deleteTask_never_rejects, of "Num 0" "[''a'', ''b'']" "''pw''" 2 "initialState 2" "[(0, ExecOk []), (0, ExecOk [])]"] w
  have d: "main (runWithConcurrencyLimit (deleteTask ''pw'' 2) [''a'', ''b''] (Num 0) (initialState 2) [(0, ExecOk []), (0, ExecOk [])]) = MDone"
    "started (runWithConcurrencyLimit (deleteTask ''pw'' 2) [''a'', ''b''] (Num 0) (initialState 2) [(0, ExecOk []), (0, ExecOk [])]) = [0, 1]"
    unfolding upt by blast+
  from limit_outside_range [OF deleteTask_never_rejects, of "Num (- 3)" "[''a'', ''b'']" "''pw''" 2 "initialState 2" "[(0, ExecOk []), (0, ExecOk [])]"]
    deleteTask_one_event [of "''pw''" 2] ev
  have e: "main (runWithConcurrencyLimit (deleteTask ''pw'' 2) [''a'', ''b''] (Num (- 3)) (initialState 2) [(0, ExecOk []), (0, ExecOk [])]) = MDone"
    by blast
  from limit_outside_range [OF deleteTask_never_rejects, of NegInfinity "[''a'', ''b'']" "''pw''" 2 "initialState 2" "[(0, ExecOk []), (0, ExecOk [])]"]
    deleteTask_one_event [of "''pw''" 2] ev
  have f: "main (runWithConcurrencyLimit (deleteTask ''pw'' 2) [''a'', ''b''] NegInfinity (initialState 2) [(0, ExecOk []), (0, ExecOk [])]) = MDone"
    by blast
  from a a3 b c d t e f show ?thesis by (simp only: simp_thms)
qed

section \<open>Invariants of the batch deletion\<close>

text \<open>
  What the record of events says of the shared state: the results are those of its skip
  and outcome events, in order; the counter is the number of outcome events; the flag is
  set when an event set it, which happens when an outcome is classified as an
  authentication failure, right after that outcome; and after such an event no command is
  invoked and every start is followed by its skip.
\<close>

definition is_done :: "ds_event \<Rightarrow> bool" where
  "is_done e = (case e of TDone i ev \<Rightarrow> True | _ \<Rightarrow> False)"

definition is_skip :: "ds_event \<Rightarrow> bool" where
  "is_skip e = (case e of TSkip i \<Rightarrow> True | _ \<Rightarrow> False)"

definition event_result :: "string list \<Rightarrow> ds_event \<Rightarrow> DeletionResult list" where
  "event_result items e =
     (case e of
        TSkip i \<Rightarrow> [skippedResult (items ! i)]
      | TDone i ev \<Rightarrow> [outcomeResult (items ! i) ev]
      | _ \<Rightarrow> [])"

definition results_of :: "string list \<Rightarrow> ds_event list \<Rightarrow> DeletionResult list" where
  "results_of items tr = concat (map (event_result items) tr)"

definition good_after :: "ds_event list \<Rightarrow> bool" where
  "good_after post =
     ((\<forall>j c. TSpawn j c \<notin> set post) \<and> (\<forall>j. TStart j \<in> set post \<longrightarrow> TSkip j \<in> set post))"

definition ds_inv :: "string list \<Rightarrow> ds_state \<Rightarrow> bool" where
  "ds_inv items sh =
     (results sh = results_of items (trace sh)
      \<and> completedCount sh = length (filter is_done (trace sh))
      \<and> (authFailed sh \<longleftrightarrow> (\<exists>k. TAuth k \<in> set (trace sh)))
      \<and> (\<forall>k e. TDone k (ExecFailed e) \<in> set (trace sh) \<and> snd (classifyError e) \<longrightarrow> authFailed sh)
      \<and> (\<forall>pre k post. trace sh = pre @ TAuth k # post \<longrightarrow>
            good_after post
            \<and> (\<exists>pre0 e. pre = pre0 @ [TDone k (ExecFailed e)] \<and> snd (classifyError e))))"

lemma results_of_append [simp]: "results_of items (a @ b) = results_of items a @ results_of items b"
  by (simp add: results_of_def)

lemma results_of_simps [simp]:
  "results_of items [] = []"
  "results_of items (TStart i # es) = results_of items es"
  "results_of items (TSpawn i c # es) = results_of items es"
  "results_of items (TAuth i # es) = results_of items es"
  "results_of items (TSkip i # es) = skippedResult (items ! i) # results_of items es"
  "results_of items (TDone i ev # es) = outcomeResult (items ! i) ev # results_of items es"
  by (simp_all add: results_of_def event_result_def)

lemma is_done_simps [simp]:
  "is_done (TStart i) = False" "is_done (TSpawn i c) = False" "is_done (TSkip i) = False"
  "is_done (TAuth i) = False" "is_done (TDone i ev) = True"
  by (simp_all add: is_done_def)

lemma is_skip_simps [simp]:
  "is_skip (TStart i) = False" "is_skip (TSpawn i c) = False" "is_skip (TSkip i) = True"
  "is_skip (TAuth i) = False" "is_skip (TDone i ev) = False"
  by (simp_all add: is_skip_def)

lemma split_append:
  assumes "xs @ ys = pre @ a # post"
  shows "(\<exists>post0. xs = pre @ a # post0 \<and> post = post0 @ ys)
         \<or> (\<exists>n1. pre = xs @ n1 \<and> ys = n1 @ a # post)"
  using assms by (auto simp: append_eq_append_conv2 append_eq_Cons_conv Cons_eq_append_conv)

lemma good_after_append:
  assumes "good_after post" and "\<forall>j c. TSpawn j c \<notin> set new"
    and "\<forall>j. TStart j \<in> set new \<longrightarrow> TSkip j \<in> set new"
  shows "good_after (post @ new)"
  using assms unfolding good_after_def by auto

lemma ds_inv_init: "ds_inv items (initialState n)"
  by (simp add: ds_inv_def initialState_def)

lemma ds_inv_call:
  assumes "ds_inv items sh"
  shows "ds_inv items (fst (task_call ep n (items ! i) i sh))"
proof (cases "authFailed sh")
  case True
  let ?new = "[TStart i, TSkip i]"
  have f: "fst (task_call ep n (items ! i) i sh)
      = sh\<lparr>results := results sh @ [skippedResult (items ! i)], trace := trace sh @ ?new\<rparr>"
    using True by (simp add: task_call_def)
  from assms True obtain k0 where k0: "TAuth k0 \<in> set (trace sh)" unfolding ds_inv_def by auto
  have suf: "good_after post \<and> (\<exists>pre0 e. pre = pre0 @ [TDone k (ExecFailed e)] \<and> snd (classifyError e))"
    if "trace sh @ ?new = pre @ TAuth k # post" for pre k post
  proof -
    from split_append [OF that] show ?thesis
    proof
      assume "\<exists>post0. trace sh = pre @ TAuth k # post0 \<and> post = post0 @ ?new"
      then obtain post0 where p: "trace sh = pre @ TAuth k # post0" "post = post0 @ ?new" by blast
      from assms p(1) have "good_after post0"
        and e: "\<exists>pre0 e. pre = pre0 @ [TDone k (ExecFailed e)] \<and> snd (classifyError e)"
        unfolding ds_inv_def by blast+
      then have "good_after (post0 @ ?new)" by (intro good_after_append) auto
      with p(2) e show ?thesis by simp
    next
      assume "\<exists>n1. pre = trace sh @ n1 \<and> ?new = n1 @ TAuth k # post"
      then obtain n1 where "?new = n1 @ TAuth k # post" by blast
      then have False by (auto simp: Cons_eq_append_conv)
      then show ?thesis ..
    qed
  qed
  show ?thesis unfolding f ds_inv_def using assms True suf
    by (auto simp: ds_inv_def)
next
  case False
  let ?new = "[TStart i, TSpawn i (deleteCommand ep (items ! i))]"
  have f: "fst (task_call ep n (items ! i) i sh)
      = sh\<lparr>deletionProgress := \<lparr>current = completedCount sh, total = n, processing = items ! i\<rparr>,
            trace := trace sh @ ?new\<rparr>"
    using False by (simp add: task_call_def)
  from assms False have na: "\<forall>k. TAuth k \<notin> set (trace sh)" unfolding ds_inv_def by auto
  have suf: "good_after post \<and> (\<exists>pre0 e. pre = pre0 @ [TDone k (ExecFailed e)] \<and> snd (classifyError e))"
    if "trace sh @ ?new = pre @ TAuth k # post" for pre k post
  proof -
    from that have "TAuth k \<in> set (trace sh @ ?new)" by simp
    with na have False by auto
    then show ?thesis ..
  qed
  show ?thesis unfolding f ds_inv_def using assms False suf
    by (auto simp: ds_inv_def)
qed

lemma task_resume_result:
  "results (fst (task_resume n d i ev sh)) = results sh @ [outcomeResult d ev]"
  by (cases ev) (auto simp: task_resume_def outcomeResult_def Let_def split: prod.splits)

lemma task_resume_settles:
  "snd (task_resume n d i ev sh) = Some (Fulfilled ())"
  by (cases ev) (auto simp: task_resume_def Let_def split: prod.splits)

lemma task_resume_fields:
  "completedCount (fst (task_resume n d i ev sh)) = completedCount sh + 1"
  "authFailed (fst (task_resume n d i ev sh))
     = (authFailed sh \<or> (case ev of ExecOk out \<Rightarrow> False | ExecFailed e \<Rightarrow> snd (classifyError e)))"
  "trace (fst (task_resume n d i ev sh))
     = trace sh @ [TDone i ev]
       @ (if (case ev of ExecOk out \<Rightarrow> False | ExecFailed e \<Rightarrow> snd (classifyError e)) then [TAuth i] else [])"
  by (cases ev; auto simp: task_resume_def Let_def split: prod.splits)+

lemma ds_inv_resume:
  assumes "ds_inv items sh"
  shows "ds_inv items (fst (task_resume n (items ! i) i ev sh))"
proof -
  define auth where "auth = (case ev of ExecOk out \<Rightarrow> False | ExecFailed e \<Rightarrow> snd (classifyError e))"
  define new where "new = [TDone i ev] @ (if auth then [TAuth i] else [])"
  define sh' where "sh' = fst (task_resume n (items ! i) i ev sh)"
  have f: "results sh' = results sh @ [outcomeResult (items ! i) ev]"
    "completedCount sh' = completedCount sh + 1"
    "authFailed sh' = (authFailed sh \<or> auth)"
    "trace sh' = trace sh @ new"
    unfolding sh'_def auth_def new_def by (simp_all add: task_resume_result task_resume_fields)
  have suf: "good_after post \<and> (\<exists>pre0 e. pre = pre0 @ [TDone k (ExecFailed e)] \<and> snd (classifyError e))"
    if "trace sh @ new = pre @ TAuth k # post" for pre k post
  proof -
    from split_append [OF that] show ?thesis
    proof
      assume "\<exists>post0. trace sh = pre @ TAuth k # post0 \<and> post = post0 @ new"
      then obtain post0 where p: "trace sh = pre @ TAuth k # post0" "post = post0 @ new" by blast
      from assms p(1) have "good_after post0"
        and e: "\<exists>pre0 e. pre = pre0 @ [TDone k (ExecFailed e)] \<and> snd (classifyError e)"
        unfolding ds_inv_def by blast+
      then have "good_after (post0 @ new)" by (intro good_after_append) (auto simp: new_def)
      with p(2) e show ?thesis by simp
    next
      assume "\<exists>n1. pre = trace sh @ n1 \<and> new = n1 @ TAuth k # post"
      then obtain n1 where n: "pre = trace sh @ n1" "new = n1 @ TAuth k # post" by blast
      from n(2) have a: "auth" "n1 = [TDone i ev]" "k = i" "post = []"
        by (auto simp: new_def Cons_eq_append_conv split: if_splits)
      from a(1) obtain e where e: "ev = ExecFailed e" "snd (classifyError e)"
        unfolding auth_def by (cases ev) auto
      show ?thesis using n(1) a e by (simp add: good_after_def)
    qed
  qed
  have au: "auth \<longleftrightarrow> (\<exists>e. ev = ExecFailed e \<and> snd (classifyError e))"
    unfolding auth_def by (cases ev) auto
  have "results sh' = results_of items (trace sh')"
    using assms unfolding f ds_inv_def by (simp add: new_def)
  moreover have "completedCount sh' = length (filter is_done (trace sh'))"
    using assms unfolding f ds_inv_def by (simp add: new_def)
  moreover have "authFailed sh' \<longleftrightarrow> (\<exists>k. TAuth k \<in> set (trace sh'))"
    using assms unfolding f ds_inv_def by (auto simp: new_def)
  moreover have "\<forall>k e. TDone k (ExecFailed e) \<in> set (trace sh') \<and> snd (classifyError e) \<longrightarrow> authFailed sh'"
    using assms au unfolding f ds_inv_def by (auto simp: new_def)
  moreover have "\<forall>pre k post. trace sh' = pre @ TAuth k # post \<longrightarrow>
            good_after post
            \<and> (\<exists>pre0 e. pre = pre0 @ [TDone k (ExecFailed e)] \<and> snd (classifyError e))"
    unfolding f using suf by blast
  ultimately show ?thesis unfolding ds_inv_def sh'_def by blast
qed

lemma step_shared_cases:
  assumes "step fn items limit s = Some s'"
  shows "(shared s' = shared s \<and> finished s' = finished s)
         \<or> (main s \<noteq> MRun \<and> callq s \<noteq> [] \<and> s' = call_step fn items s)"
proof -
  obtain i out where h: "hd (returned s) = (i, out)" by (cases "hd (returned s)")
  have "shared (loop_step items limit s) = shared s \<and> finished (loop_step items limit s) = finished s"
    by (auto simp: loop_step_def Let_def split: option.splits)
  moreover have "shared (settle_step items limit s) = shared s
      \<and> finished (settle_step items limit s) = finished s"
    using h by (cases out) (auto simp: settle_step_def Let_def)
  moreover have "shared (react_step s) = shared s \<and> finished (react_step s) = finished s"
    by (auto simp: react_step_def Let_def split: option.splits settled.splits)
  moreover have "shared (wake_step s) = shared s \<and> finished (wake_step s) = finished s"
    by (auto simp: wake_step_def split: option.splits wake.splits)
  ultimately show ?thesis using assms unfolding step_def by (auto split: if_splits)
qed

lemma call_step_shared:
  "shared (call_step fn items s) = fst (call fn (items ! hd (callq s)) (hd (callq s)) (shared s))"
  by (cases "call fn (items ! hd (callq s)) (hd (callq s)) (shared s)")
    (auto simp: call_step_def Let_def split: option.splits)

lemma call_step_finished:
  "finished (call_step fn items s)
     = (case snd (call fn (items ! hd (callq s)) (hd (callq s)) (shared s)) of
          None \<Rightarrow> finished s | Some out \<Rightarrow> finished s @ [hd (callq s)])"
  by (cases "call fn (items ! hd (callq s)) (hd (callq s)) (shared s)")
    (auto simp: call_step_def Let_def split: option.splits)

lemma deliver_shared:
  assumes "waiting s \<noteq> []"
  shows "shared (deliver fn items ev s)
           = fst (resume fn (items ! (waiting s ! (fst ev mod length (waiting s))))
                   (waiting s ! (fst ev mod length (waiting s))) (snd ev) (shared s))"
    and "finished (deliver fn items ev s)
           = (case snd (resume fn (items ! (waiting s ! (fst ev mod length (waiting s))))
                   (waiting s ! (fst ev mod length (waiting s))) (snd ev) (shared s)) of
                None \<Rightarrow> finished s
              | Some v \<Rightarrow> finished s @ [waiting s ! (fst ev mod length (waiting s))])"
  using assms
  by (cases "resume fn (items ! (waiting s ! (fst ev mod length (waiting s))))
                   (waiting s ! (fst ev mod length (waiting s))) (snd ev) (shared s)";
      simp add: deliver_def Let_def split: option.splits)+

lemma deliver_nothing: "waiting s = [] \<Longrightarrow> deliver fn items ev s = s"
  by (simp add: deliver_def)

lemma reach_shared:
  assumes "P sh0"
    and "\<And>i sh. P sh \<Longrightarrow> P (fst (call fn (items ! i) i sh))"
    and "\<And>i e sh. P sh \<Longrightarrow> P (fst (resume fn (items ! i) i e sh))"
    and "reach fn items limit sh0 s"
  shows "P (shared s)"
  using assms(4)
proof (induction rule: reach.induct)
  case reach_init
  show ?case using assms(1) by (simp add: init_def)
next
  case (reach_step s s')
  from step_shared_cases [OF reach_step.hyps(2)] show ?case
  proof
    assume "shared s' = shared s \<and> finished s' = finished s"
    with reach_step.IH show ?thesis by simp
  next
    assume "main s \<noteq> MRun \<and> callq s \<noteq> [] \<and> s' = call_step fn items s"
    then have "shared s' = fst (call fn (items ! hd (callq s)) (hd (callq s)) (shared s))"
      by (simp add: call_step_shared)
    with assms(2) [OF reach_step.IH] show ?thesis by simp
  qed
next
  case (reach_event s ev)
  show ?case
  proof (cases "waiting s = []")
    case True
    with reach_event.IH show ?thesis by (simp add: deliver_nothing)
  next
    case False
    have "P (fst (resume fn (items ! (waiting s ! (fst ev mod length (waiting s))))
                   (waiting s ! (fst ev mod length (waiting s))) (snd ev) (shared s)))"
      by (rule assms(3) [OF reach_event.IH])
    then show ?thesis unfolding deliver_shared(1) [OF False] .
  qed
qed

lemma reach_ds_inv:
  assumes "reach (deleteTask pw n) items limit (initialState n) s"
  shows "ds_inv items (shared s)"
proof (rule reach_shared [OF _ _ _ assms])
  show "ds_inv items (initialState n)" by (rule ds_inv_init)
next
  fix i sh assume "ds_inv items sh"
  then show "ds_inv items (fst (call (deleteTask pw n) (items ! i) i sh))"
    by (simp add: deleteTask_def ds_inv_call)
next
  fix i e sh assume "ds_inv items sh"
  then show "ds_inv items (fst (resume (deleteTask pw n) (items ! i) i e sh))"
    by (simp add: deleteTask_def ds_inv_resume)
qed

lemma snapshot_outcomeResult [simp]: "snapshot (outcomeResult d ev) = d"
  by (cases ev) (simp_all add: outcomeResult_def)

lemma snapshot_skippedResult [simp]: "snapshot (skippedResult d) = d"
  by (simp add: skippedResult_def)

text \<open>The array \<open>results\<close> holds the outcomes in the order in which the tasks returned.\<close>

lemma reach_results_order:
  assumes "reach (deleteTask pw n) items limit (initialState n) s"
  shows "map snapshot (results (shared s)) = map ((!) items) (finished s)"
  using assms
proof (induction rule: reach.induct)
  case reach_init
  show ?case by (simp add: init_def initialState_def)
next
  case (reach_step s s')
  from step_shared_cases [OF reach_step.hyps(2)] show ?case
  proof
    assume "shared s' = shared s \<and> finished s' = finished s"
    with reach_step.IH show ?thesis by simp
  next
    assume a: "main s \<noteq> MRun \<and> callq s \<noteq> [] \<and> s' = call_step (deleteTask pw n) items s"
    let ?i = "hd (callq s)"
    show ?thesis
    proof (cases "authFailed (shared s)")
      case True
      then show ?thesis using a reach_step.IH
        by (simp add: call_step_shared call_step_finished deleteTask_def task_call_def)
    next
      case False
      then show ?thesis using a reach_step.IH
        by (simp add: call_step_shared call_step_finished deleteTask_def task_call_def)
    qed
  qed
next
  case (reach_event s ev)
  show ?case
  proof (cases "waiting s = []")
    case True
    with reach_event.IH show ?thesis by (simp add: deliver_nothing)
  next
    case False
    from deliver_shared [OF False, of "deleteTask pw n" items ev] reach_event.IH
    show ?thesis by (simp add: deleteTask_def task_resume_result task_resume_settles)
  qed
qed

lemma finished_le:
  assumes "inv_book items s"
  shows "length (finished s) \<le> length items"
proof -
  from assms have d: "distinct (finished s)"
    and f: "set (finished s) = fst ` set (returned s) \<union> dom (promises s)"
    and u: "set (unsettled s) \<union> dom (promises s) = {0..<index s}"
    and ix: "index s \<le> length items"
    unfolding inv_book_def by auto
  have "fst ` set (returned s) \<subseteq> set (unsettled s)" by (auto simp: unsettled_def)
  with f u have sub: "set (finished s) \<subseteq> {0..<index s}" by auto
  have "length (finished s) = card (set (finished s))" using d by (simp add: distinct_card)
  also have "\<dots> \<le> card {0..<index s}" using sub by (intro card_mono) auto
  finally show ?thesis using ix by simp
qed

lemma results_of_length:
  "length (results_of items tr) = length (filter is_done tr) + length (filter is_skip tr)"
proof (induction tr)
  case Nil
  show ?case by simp
next
  case (Cons e tr)
  then show ?case by (cases e) simp_all
qed

section \<open>Short circuit, progress counter and outcomes\<close>

lemma results_of_mem:
  assumes "e \<in> set tr"
  shows "set (event_result items e) \<subseteq> set (results_of items tr)"
  using assms by (auto simp: results_of_def)

text \<open>
  Claim C3: take any state of a batch deletion and any point of its record of events at
  which a task set \<open>authFailed\<close>. That task's command had just failed with an output
  classified as an authentication failure; the flag is set; after that point no task
  invokes the deletion command; every task that starts after it skips, and \<open>results\<close>
  holds for it an outcome that is not successful and carries the skip reason; and every
  command that ends after it has its own outcome in \<open>results\<close>: successful when the
  command succeeded, and otherwise not successful, with the message of its own failure.
\<close>

theorem short_circuit:
  assumes "reach (deleteTask pw n) items limit (initialState n) s"
    and "trace (shared s) = pre @ TAuth k # post"
  shows "authFailed (shared s)
         \<and> (\<exists>pre0 e. pre = pre0 @ [TDone k (ExecFailed e)] \<and> snd (classifyError e))
         \<and> (\<forall>j c. TSpawn j c \<notin> set post)
         \<and> (\<forall>j. TStart j \<in> set post \<longrightarrow>
                TSkip j \<in> set post
                \<and> \<lparr>snapshot = items ! j, success = False,
                    error = Some ''Skipped due to previous authentication failure''\<rparr>
                  \<in> set (results (shared s)))
         \<and> (\<forall>j out. TDone j (ExecOk out) \<in> set post \<longrightarrow>
                \<lparr>snapshot = items ! j, success = True, error = None\<rparr> \<in> set (results (shared s)))
         \<and> (\<forall>j e. TDone j (ExecFailed e) \<in> set post \<longrightarrow>
                \<lparr>snapshot = items ! j, success = False, error = Some (fst (classifyError e))\<rparr>
                  \<in> set (results (shared s)))"
proof -
  from reach_ds_inv [OF assms(1)] have d: "ds_inv items (shared s)" .
  from d assms(2) have a: "authFailed (shared s)" unfolding ds_inv_def by auto
  from d assms(2) have g: "good_after post"
    and p: "\<exists>pre0 e. pre = pre0 @ [TDone k (ExecFailed e)] \<and> snd (classifyError e)"
    unfolding ds_inv_def by blast+
  from d have r: "results (shared s) = results_of items (trace (shared s))" unfolding ds_inv_def by simp
  have sk: "\<lparr>snapshot = items ! j, success = False,
              error = Some ''Skipped due to previous authentication failure''\<rparr>
            \<in> set (results (shared s))" if "TSkip j \<in> set post" for j
  proof -
    from that assms(2) have "TSkip j \<in> set (trace (shared s))" by simp
    from results_of_mem [OF this, of items] show ?thesis unfolding r
      by (simp add: event_result_def skippedResult_def)
  qed
  have dn: "outcomeResult (items ! j) ev \<in> set (results (shared s))" if "TDone j ev \<in> set post" for j ev
  proof -
    from that assms(2) have "TDone j ev \<in> set (trace (shared s))" by simp
    from results_of_mem [OF this, of items] show ?thesis unfolding r by (simp add: event_result_def)
  qed
  have ok: "\<lparr>snapshot = items ! j, success = True, error = None\<rparr> \<in> set (results (shared s))"
    if "TDone j (ExecOk out) \<in> set post" for j out
    using dn [OF that] by (simp add: outcomeResult_def)
  have ko: "\<lparr>snapshot = items ! j, success = False, error = Some (fst (classifyError e))\<rparr>
            \<in> set (results (shared s))"
    if "TDone j (ExecFailed e) \<in> set post" for j e
    using dn [OF that] by (simp add: outcomeResult_def)
  from g have g1: "\<forall>j c. TSpawn j c \<notin> set post" and g2: "\<forall>j. TStart j \<in> set post \<longrightarrow> TSkip j \<in> set post"
    unfolding good_after_def by simp_all
  from a p g1 g2 sk ok ko show ?thesis by blast
qed

lemma short_circuit_trace:
  "trace (shared (runWithConcurrencyLimit (deleteTask ''pw'' 4) [''a'', ''b'', ''c'', ''d''] (Num 2) (initialState 4)
      [(1, ExecFailed (ExecError ''Command failed'' (Some ''Sorry, try again.'') None)), (0, ExecOk [])]))
   = [TStart 0, TSpawn 0 (deleteCommand ''pw'' ''a''), TStart 1, TSpawn 1 (deleteCommand ''pw'' ''b''),
      TDone 1 (ExecFailed (ExecError ''Command failed'' (Some ''Sorry, try again.'') None))]
     @ TAuth 1 # [TStart 2, TSkip 2, TStart 3, TSkip 3, TDone 0 (ExecOk [])]"
  by code_simp

theorem short_circuit_witness:
  "authFailed (shared (runWithConcurrencyLimit (deleteTask ''pw'' 4) [''a'', ''b'', ''c'', ''d''] (Num 2) (initialState 4)
      [(1, ExecFailed (ExecError ''Command failed'' (Some ''Sorry, try again.'') None)), (0, ExecOk [])]))
   \<and> \<lparr>snapshot = ''c'', success = False, error = Some ''Skipped due to previous authentication failure''\<rparr>
       \<in> set (results (shared (runWithConcurrencyLimit (deleteTask ''pw'' 4) [''a'', ''b'', ''c'', ''d''] (Num 2) (initialState 4)
      [(1, ExecFailed (ExecError ''Command failed'' (Some ''Sorry, try again.'') None)), (0, ExecOk [])])))
   \<and> \<lparr>snapshot = ''d'', success = False, error = Some ''Skipped due to previous authentication failure''\<rparr>
       \<in> set (results (shared (runWithConcurrencyLimit (deleteTask ''pw'' 4) [''a'', ''b'', ''c'', ''d''] (Num 2) (initialState 4)
      [(1, ExecFailed (ExecError ''Command failed'' (Some ''Sorry, try again.'') None)), (0, ExecOk [])])))
   \<and> \<lparr>snapshot = ''a'', success = True, error = None\<rparr>
       \<in> set (results (shared (runWithConcurrencyLimit (deleteTask ''pw'' 4) [''a'', ''b'', ''c'', ''d''] (Num 2) (initialState 4)
      [(1, ExecFailed (ExecError ''Command failed'' (Some ''Sorry, try again.'') None)), (0, ExecOk [])])))"
  using short_circuit [OF reach_run short_circuit_trace]
  by simp

text \<open>
  Claim C4, as stated, fails: with two targets and limit 1, when the first command fails
  with an authentication error the second target is skipped; the run has ended with both
  outcomes recorded and \<open>completedCount\<close> is 1, not 2.
\<close>

theorem completedCount_skip_not_counted:
  "main (runWithConcurrencyLimit (deleteTask ''pw'' 2) [''a'', ''b''] (Num 1) (initialState 2)
      [(0, ExecFailed (ExecError ''Command failed'' (Some ''Sorry, try again.'') None))]) = MDone
   \<and> length (results (shared (runWithConcurrencyLimit (deleteTask ''pw'' 2) [''a'', ''b''] (Num 1) (initialState 2)
      [(0, ExecFailed (ExecError ''Command failed'' (Some ''Sorry, try again.'') None))]))) = 2
   \<and> completedCount (shared (runWithConcurrencyLimit (deleteTask ''pw'' 2) [''a'', ''b''] (Num 1) (initialState 2)
      [(0, ExecFailed (ExecError ''Command failed'' (Some ''Sorry, try again.'') None))])) = 1"
  by code_simp

text \<open>
  Claim C4, amended: in every state of a batch deletion \<open>completedCount\<close> is the number of
  commands that have ended (successfully or not), and with the number of skipped targets
  it makes the number of outcomes; it never exceeds the total; no step of the event loop
  changes it, a skip included, and the arrival of a command's outcome increases it by
  exactly 1; once the runner has resolved it is the total less the skipped targets.
\<close>

theorem completedCount_counts_commands:
  assumes "reach (deleteTask pw (length items)) items limit (initialState (length items)) s"
  shows "completedCount (shared s) = length (filter is_done (trace (shared s)))
         \<and> length (results (shared s))
             = completedCount (shared s) + length (filter is_skip (trace (shared s)))
         \<and> completedCount (shared s) \<le> length items
         \<and> (\<forall>s'. step (deleteTask pw (length items)) items limit s = Some s'
                \<longrightarrow> completedCount (shared s') = completedCount (shared s))
         \<and> (\<forall>ev. step (deleteTask pw (length items)) items limit s = None
                \<longrightarrow> completedCount (shared (deliver (deleteTask pw (length items)) items ev s))
                      = (if waiting s = [] then completedCount (shared s) else completedCount (shared s) + 1))
         \<and> (main s = MDone
                \<longrightarrow> completedCount (shared s) + length (filter is_skip (trace (shared s))) = length items)"
proof -
  let ?fn = "deleteTask pw (length items)"
  from reach_ds_inv [OF assms] have d: "ds_inv items (shared s)" .
  from d have c: "completedCount (shared s) = length (filter is_done (trace (shared s)))"
    and r: "results (shared s) = results_of items (trace (shared s))"
    unfolding ds_inv_def by simp_all
  have l: "length (results (shared s))
             = completedCount (shared s) + length (filter is_skip (trace (shared s)))"
    unfolding r c by (rule results_of_length)
  have b: "inv_book items s" using reach_inv [OF assms] unfolding inv_def by simp
  have lf: "length (results (shared s)) = length (finished s)"
    using reach_results_order [OF assms] by (metis length_map)
  have le: "completedCount (shared s) \<le> length items"
    using l lf finished_le [OF b] by linarith
  have st: "completedCount (shared s') = completedCount (shared s)"
    if "step ?fn items limit s = Some s'" for s'
  proof -
    from step_shared_cases [OF that] show ?thesis
    proof
      assume "shared s' = shared s \<and> finished s' = finished s"
      then show ?thesis by simp
    next
      assume "main s \<noteq> MRun \<and> callq s \<noteq> [] \<and> s' = call_step ?fn items s"
      then show ?thesis
        by (simp add: call_step_shared deleteTask_def task_call_def)
    qed
  qed
  have ev: "completedCount (shared (deliver ?fn items ev s))
      = (if waiting s = [] then completedCount (shared s) else completedCount (shared s) + 1)" for ev
  proof (cases "waiting s = []")
    case True
    then show ?thesis by (simp add: deliver_nothing)
  next
    case False
    then show ?thesis
      by (simp add: deliver_shared(1) [OF False] deleteTask_def task_resume_fields(1))
  qed
  have dn: "completedCount (shared s) + length (filter is_skip (trace (shared s))) = length items"
    if "main s = MDone"
  proof -
    from done_started [OF reach_inv [OF assms] that]
    have "distinct (finished s)" "set (finished s) = {0..<length items}" by simp_all
    then have "length (finished s) = length items" by (metis distinct_card card_atLeastLessThan diff_zero)
    with l lf show ?thesis by simp
  qed
  from c l le st ev dn show ?thesis by blast
qed

theorem completedCount_counts_commands_witness:
  "completedCount (shared (runWithConcurrencyLimit (deleteTask ''pw'' (length [''a'', ''b''])) [''a'', ''b''] (Num 1)
      (initialState (length [''a'', ''b'']))
      [(0, ExecFailed (ExecError ''Command failed'' (Some ''Sorry, try again.'') None))]))
    \<le> length [''a'', ''b'']"
  using completedCount_counts_commands [OF reach_run, of "''pw''" "[''a'', ''b'']" "Num 1"
      "[(0, ExecFailed (ExecError ''Command failed'' (Some ''Sorry, try again.'') None))]"]
  by blast

text \<open>
  Claim C2, as stated, fails: with two targets and limit 2, when the command of the second
  target ends first, the first outcome in \<open>results\<close> is the second target's.
\<close>

theorem outcomes_in_completion_order:
  "main (runWithConcurrencyLimit (deleteTask ''pw'' 2) [''a'', ''b''] (Num 2) (initialState 2)
      [(1, ExecOk []), (0, ExecOk [])]) = MDone
   \<and> map snapshot (results (shared (runWithConcurrencyLimit (deleteTask ''pw'' 2) [''a'', ''b''] (Num 2) (initialState 2)
      [(1, ExecOk []), (0, ExecOk [])]))) = [''b'', ''a'']"
  by code_simp

text \<open>
  Claim C2, amended: when the runner has resolved, \<open>results\<close> has exactly one outcome per
  target, skipped ones included: its length is the number of targets and the targets of
  its outcomes are a permutation of the input. Its order is the order in which the tasks
  returned: the \<open>i\<close>-th outcome is for the \<open>i\<close>-th task to finish. The array that the runner
  itself resolves to has one entry per item.
\<close>

theorem outcomes_one_per_target:
  assumes "reach (deleteTask pw n) items limit (initialState n) s" and "main s = MDone"
  shows "length (results (shared s)) = length items
         \<and> mset (map snapshot (results (shared s))) = mset items
         \<and> map snapshot (results (shared s)) = map ((!) items) (finished s)
         \<and> runner_result items s = Some (Inr (replicate (length items) (Some ())))"
proof -
  have o: "map snapshot (results (shared s)) = map ((!) items) (finished s)"
    by (rule reach_results_order [OF assms(1)])
  from done_started [OF reach_inv [OF assms(1)] assms(2)]
  have df: "distinct (finished s)" and sf: "set (finished s) = {0..<length items}" by simp_all
  have "set (finished s) = set [0..<length items]" using sf by simp
  then have "mset (finished s) = mset [0..<length items]"
    using df by (metis distinct_upt set_eq_iff_mset_eq_distinct)
  then have "mset (map ((!) items) (finished s)) = mset (map ((!) items) [0..<length items])"
    by (metis mset_map)
  then have m: "mset (map snapshot (results (shared s))) = mset items"
    unfolding o by (simp add: map_nth)
  then have l: "length (results (shared s)) = length items"
    by (metis length_map size_mset)
  have "value_of (promises s i) = Some ()" if "i < length items" for i
  proof -
    from done_all_fulfilled [OF assms] that have "is_fulfilled (promises s i)"
      unfolding all_fulfilled_iff by simp
    then show ?thesis
      by (cases "promises s i") (auto simp: value_of_def is_fulfilled_def split: settled.splits)
  qed
  then have "map (\<lambda>i. value_of (promises s i)) [0..<length items] = replicate (length items) (Some ())"
    by (intro nth_equalityI) simp_all
  then have rr: "runner_result items s = Some (Inr (replicate (length items) (Some ())))"
    using assms(2) by (simp add: runner_result_def)
  from l m o rr show ?thesis by blast
qed

theorem outcomes_one_per_target_witness:
  "mset (map snapshot (results (shared (runWithConcurrencyLimit (deleteTask ''pw'' 2) [''a'', ''b''] (Num 2) (initialState 2)
      [(1, ExecOk []), (0, ExecOk [])])))) = mset [''a'', ''b'']"
proof -
  have d: "main (runWithConcurrencyLimit (deleteTask ''pw'' 2) [''a'', ''b''] (Num 2) (initialState 2)
      [(1, ExecOk []), (0, ExecOk [])]) = MDone"
    by code_simp
  from outcomes_one_per_target [OF reach_run d] show ?thesis by blast
qed

section \<open>The runner resolves\<close>

lemma run_empty:
  "runWithConcurrencyLimit fn [] limit sh sched = (init sh)\<lparr>main := MDone\<rparr>"
proof -
  have s1: "step fn [] limit (init sh) = Some ((init sh)\<lparr>main := MAll\<rparr>)"
    by (simp add: step_def init_def loop_step_def)
  have s2: "step fn [] limit ((init sh)\<lparr>main := MAll\<rparr>) = Some ((init sh)\<lparr>main := MDone\<rparr>)"
    by (simp add: step_def init_def all_fulfilled_def)
  have s3: "step fn [] limit ((init sh)\<lparr>main := MDone\<rparr>) = None"
    by (simp add: step_def init_def)
  have "drain fn [] limit (init sh) = drain fn [] limit ((init sh)\<lparr>main := MAll\<rparr>)"
    using s1 by (subst drain.simps) simp
  also have "\<dots> = drain fn [] limit ((init sh)\<lparr>main := MDone\<rparr>)"
    using s2 by (subst drain.simps) simp
  also have "\<dots> = (init sh)\<lparr>main := MDone\<rparr>" by (rule drain_of_idle [OF s3])
  finally have d: "drain fn [] limit (init sh) = (init sh)\<lparr>main := MDone\<rparr>" .
  show ?thesis unfolding runWithConcurrencyLimit_def d
    by (rule idle_stable [OF s3]) (simp add: init_def)
qed

lemma done_values:
  assumes "reach fn items limit sh s" and "main s = MDone"
  shows "\<exists>vs. runner_result items s = Some (Inr vs) \<and> length vs = length items \<and> None \<notin> set vs"
proof -
  let ?vs = "map (\<lambda>i. value_of (promises s i)) [0..<length items]"
  have "value_of (promises s i) \<noteq> None" if "i < length items" for i
  proof -
    from done_all_fulfilled [OF assms] that have "is_fulfilled (promises s i)"
      unfolding all_fulfilled_iff by simp
    then show ?thesis
      by (cases "promises s i") (auto simp: value_of_def is_fulfilled_def split: settled.splits)
  qed
  then have "None \<notin> set ?vs" by force
  moreover have "runner_result items s = Some (Inr ?vs)" using assms(2) by (simp add: runner_result_def)
  ultimately show ?thesis by simp
qed

text \<open>
  Claim C5: with a task function whose failures are values, never rejections, and that
  waits for one event (as the task of \<open>deleteSnapshots\<close>, which awaits its command and whose
  \<open>catch\<close> block turns every failure of the command into a result), the runner resolves
  once each suspended task has received its event: its promise
  holds one value per item, and every task was started, whatever the other tasks
  returned. With no items it resolves to the empty array at once, without calling the
  task function: nothing was started and the shared state is untouched.
\<close>

theorem runner_resolves_per_item:
  assumes "never_rejects fn" and "one_event fn"
  shows "(length items \<le> length sched \<longrightarrow>
            main (runWithConcurrencyLimit fn items limit sh sched) = MDone
            \<and> (\<exists>vs. runner_result items (runWithConcurrencyLimit fn items limit sh sched) = Some (Inr vs)
                  \<and> length vs = length items \<and> None \<notin> set vs)
            \<and> started (runWithConcurrencyLimit fn items limit sh sched) = [0..<length items])
         \<and> runner_result [] (runWithConcurrencyLimit fn [] limit sh sched) = Some (Inr [])
         \<and> started (runWithConcurrencyLimit fn [] limit sh sched) = []
         \<and> shared (runWithConcurrencyLimit fn [] limit sh sched) = sh"
proof -
  have a: "main (runWithConcurrencyLimit fn items limit sh sched) = MDone
            \<and> (\<exists>vs. runner_result items (runWithConcurrencyLimit fn items limit sh sched) = Some (Inr vs)
                  \<and> length vs = length items \<and> None \<notin> set vs)
            \<and> started (runWithConcurrencyLimit fn items limit sh sched) = [0..<length items]"
    if "length items \<le> length sched"
  proof -
    have d: "main (runWithConcurrencyLimit fn items limit sh sched) = MDone"
      by (rule run_completes [OF assms(1) assms(2) that])
    from d done_values [OF reach_run d] done_started_order [OF reach_run d] show ?thesis by simp
  qed
  have b: "runner_result [] (runWithConcurrencyLimit fn [] limit sh sched) = Some (Inr [])"
    "started (runWithConcurrencyLimit fn [] limit sh sched) = []"
    "shared (runWithConcurrencyLimit fn [] limit sh sched) = sh"
    unfolding run_empty by (simp_all add: runner_result_def init_def)
  from a b show ?thesis by blast
qed

theorem runner_resolves_per_item_witness:
  "main (runWithConcurrencyLimit (deleteTask ''pw'' 3) [''a'', ''b'', ''c''] (Num 2) (initialState 3)
      [(0, ExecFailed (ExecError ''Command failed'' (Some ''no such snapshot'') None)), (1, ExecOk []), (0, ExecOk [])]) = MDone
   \<and> started (runWithConcurrencyLimit (deleteTask ''pw'' 3) [''a'', ''b'', ''c''] (Num 2) (initialState 3)
      [(0, ExecFailed (ExecError ''Command failed'' (Some ''no such snapshot'') None)), (1, ExecOk []), (0, ExecOk [])])
       = [0..<length [''a'', ''b'', ''c'']]
   \<and> map success (results (shared (runWithConcurrencyLimit (deleteTask ''pw'' 3) [''a'', ''b'', ''c''] (Num 2) (initialState 3)
      [(0, ExecFailed (ExecError ''Command failed'' (Some ''no such snapshot'') None)), (1, ExecOk []), (0, ExecOk [])])))
       = [False, True, True]"
proof -
  let ?items = "[''a'', ''b'', ''c'']"
  let ?sched = "[(0, ExecFailed (ExecError ''Command failed'' (Some ''no such snapshot'') None)),
      (1, ExecOk []), (0 :: nat, ExecOk [])]"
  have r: "map success (results (shared (runWithConcurrencyLimit (deleteTask ''pw'' 3) ?items (Num 2)
      (initialState 3) ?sched))) = [False, True, True]"
    by code_simp
  have l: "length ?items \<le> length ?sched" by simp
  from runner_resolves_per_item [OF deleteTask_never_rejects deleteTask_one_event, of ?items ?sched "''pw''" 3 "Num 2" "initialState 3"] l
  have "main (runWithConcurrencyLimit (deleteTask ''pw'' 3) ?items (Num 2) (initialState 3) ?sched) = MDone
    \<and> started (runWithConcurrencyLimit (deleteTask ''pw'' 3) ?items (Num 2) (initialState 3) ?sched)
        = [0..<length ?items]"
    by blast
  with r show ?thesis by blast
qed

section \<open>The summary of a run\<close>

text \<open>The classification and the counts, as the specification words them.\<close>

datatype classification = NoOp | AllSucceeded | AllFailed | Partial

definition spec_successCount :: "DeletionResult list \<Rightarrow> nat" where
  "spec_successCount os = length (filter (\<lambda>r. success r = True) os)"

definition spec_failureCount :: "DeletionResult list \<Rightarrow> nat" where
  "spec_failureCount os = length (filter (\<lambda>r. success r = False) os)"

definition spec_classify :: "DeletionResult list \<Rightarrow> classification" where
  "spec_classify os =
     (if os = [] then NoOp
      else if spec_failureCount os = 0 then AllSucceeded
      else if spec_successCount os = 0 then AllFailed
      else Partial)"

text \<open>The classification that a toast of \<open>deleteSnapshots\<close> announces, read from its title.\<close>

definition toast_class :: "toast \<Rightarrow> classification option" where
  "toast_class t =
     (if title t = ''No snapshots selected'' then Some NoOp
      else if title t = ''All snapshots deleted successfully'' then Some AllSucceeded
      else if title t = ''Failed to delete snapshots'' then Some AllFailed
      else if title t = ''Partially completed'' then Some Partial
      else None)"

text \<open>The final toast of a call, and its outcome list (none when no run took place).\<close>

definition report_toast :: "report \<Rightarrow> toast option" where
  "report_toast r = (case r of NoSelection t \<Rightarrow> Some t | Finished sh t ds \<Rightarrow> Some t | _ \<Rightarrow> None)"

definition report_outcomes :: "report \<Rightarrow> DeletionResult list" where
  "report_outcomes r = (case r of Finished sh t ds \<Rightarrow> results sh | _ \<Rightarrow> [])"

lemma summaryToast_class:
  assumes "rs \<noteq> []"
  shows "toast_class (summaryToast rs) = Some (spec_classify rs)"
  using assms
  by (simp add: summaryToast_def toast_class_def spec_classify_def spec_failureCount_def
      spec_successCount_def Let_def)

lemma summaryToast_message:
  "spec_failureCount rs = 0 \<Longrightarrow>
     summaryToast rs = \<lparr>style = Success, title = ''All snapshots deleted successfully'',
        message = showNat (spec_successCount rs) @ '' snapshot(s) deleted''\<rparr>"
  "spec_failureCount rs \<noteq> 0 \<Longrightarrow> spec_successCount rs \<noteq> 0 \<Longrightarrow>
     summaryToast rs = \<lparr>style = Failure, title = ''Partially completed'',
        message = showNat (spec_successCount rs) @ '' deleted, '' @ showNat (spec_failureCount rs) @ '' failed''\<rparr>"
  by (simp_all add: summaryToast_def spec_failureCount_def spec_successCount_def Let_def)

lemma done_results_length:
  assumes "reach (deleteTask pw n) items limit (initialState n) s" and "main s = MDone"
  shows "length (results (shared s)) = length items"
proof -
  from done_started [OF reach_inv [OF assms(1)] assms(2)]
  have "distinct (finished s)" "set (finished s) = {0..<length items}" by simp_all
  then have "length (finished s) = length items" by (metis distinct_card card_atLeastLessThan diff_zero)
  moreover have "length (results (shared s)) = length (finished s)"
    using reach_results_order [OF assms(1)] by (metis length_map)
  ultimately show ?thesis by simp
qed

lemma runner_result_done: "runner_result items s = Some (Inr vs) \<Longrightarrow> main s = MDone"
  by (cases "main s") (simp_all add: runner_result_def)

lemma deleteSnapshots_finished:
  assumes "deleteSnapshots sel confirmed pw pref sched = Finished sh t ds"
  shows "sel \<noteq> []" and "length (results sh) = length sel" and "t = summaryToast (results sh)"
proof -
  let ?s = "runWithConcurrencyLimit (deleteTask pw (length sel)) sel (concurrencyLimit pref)
              (initialState (length sel)) sched"
  from assms show ne: "sel \<noteq> []" by (auto simp: deleteSnapshots_def split: if_splits)
  from assms ne have c: "confirmed" by (auto simp: deleteSnapshots_def split: if_splits)
  from assms ne c obtain vs where rr: "runner_result sel ?s = Some (Inr vs)"
    and sh: "sh = shared ?s" and t: "t = summaryToast (results (shared ?s))"
    by (auto simp: deleteSnapshots_def Let_def split: option.splits sum.splits)
  from t sh show "t = summaryToast (results sh)" by simp
  from done_results_length [OF reach_run runner_result_done [OF rr]] sh
  show "length (results sh) = length sel" by simp
qed

lemma deleteSnapshots_completes:
  assumes "sel \<noteq> []" and "confirmed" and "length sel \<le> length sched"
  shows "\<exists>sh. deleteSnapshots sel confirmed pw pref sched
           = Finished sh (summaryToast (results sh)) (detailToasts (results sh))"
proof -
  let ?s = "runWithConcurrencyLimit (deleteTask pw (length sel)) sel (concurrencyLimit pref)
              (initialState (length sel)) sched"
  have d: "main ?s = MDone" by (rule run_completes [OF deleteTask_never_rejects deleteTask_one_event assms(3)])
  then obtain vs where "runner_result sel ?s = Some (Inr vs)" by (simp add: runner_result_def)
  then show ?thesis using assms(1,2) by (simp add: deleteSnapshots_def Let_def)
qed

text \<open>
  Claim C8: the final toast of \<open>deleteSnapshots\<close> announces the classification of the
  specification for the outcome list of the call. For every outcome list that is not empty
  the summary toast announces AllSucceeded, AllFailed or Partial as the counts of
  successful and failed outcomes say, and its message carries these counts
  (\<open>successCount\<close> the outcomes with \<open>success\<close> true, \<open>failureCount\<close> those with
  \<open>success\<close> false, skipped ones among them). A call with an empty selection ends with no
  outcome and the toast of NoOp; a confirmed call with a selection, once the run has ended,
  has one outcome per target, so its list is not empty.
\<close>

theorem summary_classification:
  "(rs \<noteq> [] \<longrightarrow> toast_class (summaryToast rs) = Some (spec_classify rs))
   \<and> (spec_classify rs = AllSucceeded \<longrightarrow>
         message (summaryToast rs) = showNat (spec_successCount rs) @ '' snapshot(s) deleted'')
   \<and> (spec_classify rs = Partial \<longrightarrow>
         message (summaryToast rs)
           = showNat (spec_successCount rs) @ '' deleted, '' @ showNat (spec_failureCount rs) @ '' failed'')
   \<and> (sel = [] \<longrightarrow>
         report_outcomes (deleteSnapshots sel confirmed pw pref sched) = []
         \<and> map_option toast_class (report_toast (deleteSnapshots sel confirmed pw pref sched))
             = Some (Some NoOp))
   \<and> (sel \<noteq> [] \<and> confirmed \<and> length sel \<le> length sched \<longrightarrow>
         length (report_outcomes (deleteSnapshots sel confirmed pw pref sched)) = length sel
         \<and> map_option toast_class (report_toast (deleteSnapshots sel confirmed pw pref sched))
             = Some (Some (spec_classify (report_outcomes (deleteSnapshots sel confirmed pw pref sched)))))
   \<and> (report_toast (deleteSnapshots sel confirmed pw pref sched) = None
       \<or> map_option toast_class (report_toast (deleteSnapshots sel confirmed pw pref sched))
             = Some (Some (spec_classify (report_outcomes (deleteSnapshots sel confirmed pw pref sched)))))"
proof -
  let ?D = "deleteSnapshots sel confirmed pw pref sched"
  have a: "toast_class (summaryToast rs) = Some (spec_classify rs)" if "rs \<noteq> []"
    by (rule summaryToast_class [OF that])
  have b: "message (summaryToast rs) = showNat (spec_successCount rs) @ '' snapshot(s) deleted''"
    if "spec_classify rs = AllSucceeded"
  proof -
    from that have "spec_failureCount rs = 0"
      by (auto simp: spec_classify_def spec_failureCount_def split: if_splits)
    from summaryToast_message(1) [OF this] show ?thesis by simp
  qed
  have c: "message (summaryToast rs)
      = showNat (spec_successCount rs) @ '' deleted, '' @ showNat (spec_failureCount rs) @ '' failed''"
    if "spec_classify rs = Partial"
  proof -
    from that have "spec_failureCount rs \<noteq> 0" "spec_successCount rs \<noteq> 0"
      by (auto simp: spec_classify_def split: if_splits)
    from summaryToast_message(2) [OF this] show ?thesis by simp
  qed
  have fin: "map_option toast_class (report_toast ?D) = Some (Some (spec_classify (report_outcomes ?D)))
      \<and> length (report_outcomes ?D) = length sel"
    if "?D = Finished sh t ds" for sh t ds
  proof -
    from deleteSnapshots_finished [OF that]
    have ne: "sel \<noteq> []" and l: "length (results sh) = length sel" and t: "t = summaryToast (results sh)"
      by simp_all
    from ne l have "results sh \<noteq> []" by auto
    from summaryToast_class [OF this] t l show ?thesis
      unfolding that by (simp add: report_toast_def report_outcomes_def)
  qed
  have d: "report_outcomes ?D = [] \<and> map_option toast_class (report_toast ?D) = Some (Some NoOp)"
    if "sel = []"
    using that by (simp add: deleteSnapshots_def report_outcomes_def report_toast_def toast_class_def)
  have e: "length (report_outcomes ?D) = length sel
      \<and> map_option toast_class (report_toast ?D) = Some (Some (spec_classify (report_outcomes ?D)))"
    if "sel \<noteq> [] \<and> confirmed \<and> length sel \<le> length sched"
  proof -
    from that deleteSnapshots_completes [of sel confirmed sched pw pref]
    obtain sh where "?D = Finished sh (summaryToast (results sh)) (detailToasts (results sh))" by blast
    from fin [OF this] show ?thesis by simp
  qed
  have f: "report_toast ?D = None
      \<or> map_option toast_class (report_toast ?D) = Some (Some (spec_classify (report_outcomes ?D)))"
  proof (cases ?D)
    case (NoSelection t)
    then have "sel = []" by (auto simp: deleteSnapshots_def Let_def split: if_splits option.splits sum.splits)
    from d [OF this] show ?thesis by (simp add: spec_classify_def)
  next
    case Cancelled
    then show ?thesis by (simp add: report_toast_def)
  next
    case Unfinished
    then show ?thesis by (simp add: report_toast_def)
  next
    case Thrown
    then show ?thesis by (simp add: report_toast_def)
  next
    case (Finished sh t ds)
    from fin [OF this] show ?thesis by simp
  qed
  from a b c d e f show ?thesis by blast
qed

theorem summary_classification_witness:
  "map_option toast_class (report_toast (deleteSnapshots [''a'', ''b''] True ''pw'' (Some ''2'')
      [(1, ExecOk []), (0, ExecFailed (ExecError ''Command failed'' (Some ''no such snapshot'') None))]))
     = Some (Some Partial)
   \<and> map_option toast_class (report_toast (deleteSnapshots [] True ''pw'' (Some ''2'') [])) = Some (Some NoOp)"
proof -
  have p: "spec_classify (report_outcomes (deleteSnapshots [''a'', ''b''] True ''pw'' (Some ''2'')
      [(1, ExecOk []), (0, ExecFailed (ExecError ''Command failed'' (Some ''no such snapshot'') None))])) = Partial"
    by code_simp
  from summary_classification [of "[]" "[''a'', ''b'']" True "''pw''" "Some ''2''"
      "[(1, ExecOk []), (0, ExecFailed (ExecError ''Command failed'' (Some ''no such snapshot'') None))]"]
    summary_classification [of "[]" "[]" True "''pw''" "Some ''2''" "[]"] p
  show ?thesis by simp
qed

section \<open>The command line of a deletion, as the shell reads it\<close>

text \<open>
  \<open>exec(command)\<close> of Node's \<open>child_process\<close> runs the command in a shell: the process
  it spawns is \<open>/bin/sh\<close> with the arguments \<open>-c\<close> and the command string.
\<close>

definition exec_argv :: "string \<Rightarrow> string list" where
  "exec_argv command = [''/bin/sh'', ''-c'', command]"

text \<open>
  The part of the shell's grammar that the deletion command uses: words separated by
  spaces, single quotes (everything up to the next quote is literal), a backslash before
  a character outside quotes, and \<open>|\<close> between the commands of a pipeline. A character
  with another meaning for the shell outside quotes is not modelled: the result is
  \<open>None\<close>. The result lists the commands of the pipeline, each with its words.
\<close>

datatype sh_mode = Unquoted | Quoted

definition sh_plain :: "char \<Rightarrow> bool" where
  "sh_plain c =
     (c \<notin> set (''|&;<>()$*?[]#~=%!{}'' @ [CHR 0x20, CHR 0x09, CHR 0x0A, CHR 0x5C, CHR 0x22, CHR 0x27, CHR 0x60]))"

definition the_word :: "string option \<Rightarrow> string" where
  "the_word cur = (case cur of None \<Rightarrow> [] | Some w \<Rightarrow> w)"

definition end_word :: "string list \<Rightarrow> string option \<Rightarrow> string list" where
  "end_word ws cur = (case cur of None \<Rightarrow> ws | Some w \<Rightarrow> ws @ [w])"

fun sh_scan ::
  "sh_mode \<Rightarrow> string list list \<Rightarrow> string list \<Rightarrow> string option \<Rightarrow> string \<Rightarrow> string list list option"
where
  "sh_scan Quoted st ws cur [] = None"
| "sh_scan Quoted st ws cur (c # cs) =
     (if c = CHR 0x27 then sh_scan Unquoted st ws cur cs
      else sh_scan Quoted st ws (Some (the_word cur @ [c])) cs)"
| "sh_scan Unquoted st ws cur [] = Some (st @ [end_word ws cur])"
| "sh_scan Unquoted st ws cur (c # cs) =
     (if c = CHR 0x20 then sh_scan Unquoted st (end_word ws cur) None cs
      else if c = CHR ''|'' then sh_scan Unquoted (st @ [end_word ws cur]) [] None cs
      else if c = CHR 0x27 then sh_scan Quoted st ws (Some (the_word cur)) cs
      else if c = CHR 0x5C then
        (case cs of
           [] \<Rightarrow> None
         | d # ds \<Rightarrow>
             if d = CHR 0x0A then sh_scan Unquoted st ws cur ds
             else sh_scan Unquoted st ws (Some (the_word cur @ [d])) ds)
      else if sh_plain c then sh_scan Unquoted st ws (Some (the_word cur @ [c])) cs
      else None)"

definition sh_parse :: "string \<Rightarrow> string list list option" where
  "sh_parse command = sh_scan Unquoted [] [] None command"

lemma escapeSingleQuote_Cons:
  "escapeSingleQuote (c # cs)
     = (if c = CHR 0x27 then [CHR 0x27, CHR 0x5C, CHR 0x27, CHR 0x27] else [c]) @ escapeSingleQuote cs"
  by (simp add: escapeSingleQuote_def)

lemma escapeSingleQuote_Nil: "escapeSingleQuote [] = []"
  by (simp add: escapeSingleQuote_def)

text \<open>Between single quotes the escaped password is read back as the password.\<close>

lemma sh_scan_escaped:
  "sh_scan Quoted st ws (Some w) (escapeSingleQuote pw @ CHR 0x27 # rest)
     = sh_scan Unquoted st ws (Some (w @ pw)) rest"
proof (induction pw arbitrary: w)
  case Nil
  show ?case by (simp add: escapeSingleQuote_Nil)
next
  case (Cons c cs)
  show ?case
  proof (cases "c = CHR 0x27")
    case True
    then show ?thesis using Cons [of "w @ [c]"]
      by (simp add: escapeSingleQuote_Cons the_word_def)
  next
    case False
    then show ?thesis using Cons [of "w @ [c]"]
      by (simp add: escapeSingleQuote_Cons the_word_def)
  qed
qed

lemma sh_plain_not_special:
  assumes "sh_plain c"
  shows "c \<noteq> CHR 0x20" and "c \<noteq> CHR ''|''" and "c \<noteq> CHR 0x27" and "c \<noteq> CHR 0x5C"
  using assms by (auto simp: sh_plain_def)

lemma sh_scan_plain:
  assumes "\<forall>c \<in> set w. sh_plain c" and "w \<noteq> []"
  shows "sh_scan Unquoted st ws cur w = Some (st @ [ws @ [the_word cur @ w]])"
  using assms
proof (induction w arbitrary: cur)
  case Nil
  then show ?case by simp
next
  case (Cons c cs)
  from Cons.prems have p: "sh_plain c" by simp
  note n = sh_plain_not_special [OF p]
  show ?case
  proof (cases "cs = []")
    case True
    then show ?thesis using p n by (simp add: end_word_def the_word_def)
  next
    case False
    from Cons.prems have "\<forall>c \<in> set cs. sh_plain c" by simp
    from Cons.IH [OF this False, of "Some (the_word cur @ [c])"] show ?thesis
      using p n by (simp add: the_word_def)
  qed
qed

lemma str_includes_prefix: "prefix sub s \<Longrightarrow> str_includes s sub"
  by (cases s) auto

lemma str_includes_self: "str_includes (sub @ post) sub"
  by (rule str_includes_prefix) simp

lemma str_includes_middle: "str_includes (pre @ sub @ post) sub"
proof (induction pre)
  case Nil
  show ?case by (simp add: str_includes_self)
next
  case (Cons c pre)
  then show ?case by simp
qed

lemma deleteCommand_parts:
  "deleteCommand ep d
     = (''printf '' @ [CHR 0x27] @ ''%s'' @ [CHR 0x5C] @ ''n'' @ [CHR 0x27] @ '' '' @ [CHR 0x27]) @ ep
       @ ([CHR 0x27] @ '' | sudo -S /usr/bin/tmutil deletelocalsnapshots '' @ d)"
  by (simp add: deleteCommand_def)

text \<open>
  Claim C7, as stated, fails: the command line of the deletion is an argument of the shell
  process that \<open>exec\<close> spawns, and it contains the password.
\<close>

theorem credential_in_shell_arguments:
  "exec_argv (deleteCommand (escapeSingleQuote ''hunter2'') ''2024-01-13-120000'') ! 2
     = ''printf '' @ [CHR 0x27] @ ''%s'' @ [CHR 0x5C] @ ''n'' @ [CHR 0x27] @ '' '' @ [CHR 0x27] @ ''hunter2''
       @ [CHR 0x27] @ '' | sudo -S /usr/bin/tmutil deletelocalsnapshots 2024-01-13-120000''
   \<and> str_includes (exec_argv (deleteCommand (escapeSingleQuote ''hunter2'') ''2024-01-13-120000'') ! 2) ''hunter2''"
  by (simp add: exec_argv_def deleteCommand_def escapeSingleQuote_def)

text \<open>
  Claim C7, amended: for every password and every snapshot id of plain characters, the
  command line handed to \<open>exec\<close>, which is the last argument of the shell process,
  contains the escaped password; the shell reads it as a pipeline of two commands,
  \<open>printf\<close> with the format and the password itself as its arguments, and \<open>sudo -S\<close> with
  the \<open>tmutil\<close> command and the id. So the password reaches \<open>sudo\<close> through the pipe and
  is no argument of \<open>sudo\<close>, but it is an argument of \<open>printf\<close> and part of the shell's.
\<close>

theorem deleteCommand_pipeline:
  assumes "d \<noteq> []" and "\<forall>c \<in> set d. sh_plain c"
  shows "sh_parse (deleteCommand (escapeSingleQuote pw) d)
           = Some [[''printf'', ''%s'' @ [CHR 0x5C] @ ''n'', pw],
                   [''sudo'', ''-S'', ''/usr/bin/tmutil'', ''deletelocalsnapshots'', d]]
         \<and> exec_argv (deleteCommand (escapeSingleQuote pw) d)
             = [''/bin/sh'', ''-c'', deleteCommand (escapeSingleQuote pw) d]
         \<and> str_includes (deleteCommand (escapeSingleQuote pw) d) (escapeSingleQuote pw)"
proof -
  have a: "sh_parse (deleteCommand (escapeSingleQuote pw) d)
           = Some [[''printf'', ''%s'' @ [CHR 0x5C] @ ''n'', pw],
                   [''sudo'', ''-S'', ''/usr/bin/tmutil'', ''deletelocalsnapshots'', d]]"
    unfolding sh_parse_def deleteCommand_def
    by (simp add: sh_scan_escaped sh_scan_plain [OF assms(2,1)] sh_plain_def the_word_def end_word_def)
  have b: "str_includes (deleteCommand (escapeSingleQuote pw) d) (escapeSingleQuote pw)"
    unfolding deleteCommand_parts by (rule str_includes_middle)
  from a b show ?thesis by (simp add: exec_argv_def)
qed

theorem deleteCommand_pipeline_witness:
  "sh_parse (deleteCommand (escapeSingleQuote ''it's'') ''2024-01-13-120000'')
     = Some [[''printf'', ''%s'' @ [CHR 0x5C] @ ''n'', ''it's''],
             [''sudo'', ''-S'', ''/usr/bin/tmutil'', ''deletelocalsnapshots'', ''2024-01-13-120000'']]"
proof -
  have p: "\<forall>c \<in> set ''2024-01-13-120000''. sh_plain c" by (simp add: sh_plain_def)
  have n: "''2024-01-13-120000'' \<noteq> []" by simp
  from deleteCommand_pipeline [OF n p, of "''it's''"] show ?thesis by blast
qed

end
